theory Spec2Isabelle
  imports Main "HOL-Library.Char_ord" "HOL-Library.List_Lexorder"
begin

section \<open>Data model\<close>

text \<open>
  The \<open>sys\<close> block of an entry or an asset, with the members the sidebar reads.
  \<open>publishedVersion\<close> and \<open>publishedAt\<close> are optional members; \<open>publishedAt\<close> is an
  ISO-8601 string, compared as a string.
\<close>

record sys =
  sys_id :: string
  sys_type :: string
  sys_space :: string
  sys_environment :: string
  sys_version :: nat
  sys_publishedVersion :: "nat option"
  sys_publishedAt :: "string option"

text \<open>
  An entry (\<open>EntryProps<KeyValueMap>\<close>): its \<open>sys\<close>, the id of its content type
  (\<open>sys.contentType.sys.id\<close>) and its fields in key order, each value a map from locale
  to text, or \<open>None\<close> for a \<open>null\<close>/\<open>undefined\<close> value (\<open>KeyValueMap\<close> is
  \<open>Record<string, any>\<close>).
\<close>

record entry =
  entry_sys :: sys
  contentType :: string
  entry_fields :: "(string \<times> (string \<times> string) list option) list"

text \<open>
  An asset (\<open>AssetProps\<close>): its \<open>sys\<close> and \<open>fields.title\<close>, a map from locale to text.
  \<open>AssetProps\<close> declares the member, but the value is what the API returned and nothing
  checks it: \<open>None\<close> is an asset whose \<open>fields\<close> has no \<open>title\<close>.
\<close>

record asset =
  asset_sys :: sys
  asset_title :: "(string \<times> string) list option"

text \<open>An \<open>EntryReferenceError\<close>: the \<open>sys\<close> link (id and type) and the message.\<close>

record reference_error =
  err_id :: string
  err_type :: string
  err_message :: string

text \<open>
  What \<open>sdk.cma.entry.references\<close> resolves to: the collection errors and the included
  assets and entries. An absent \<open>errors\<close>, \<open>includes\<close>, \<open>includes.Asset\<close> or
  \<open>includes.Entry\<close> is the empty list (the code skips the absent member).
\<close>

record references =
  ref_errors :: "reference_error list"
  includes_Asset :: "asset list"
  includes_Entry :: "entry list"

text \<open>
  The outcome of awaiting the call: the promise rejects with an error (its text), or
  resolves to a falsy value (\<open>Resolved None\<close>), or resolves to the references.
\<close>

datatype fetch_result = Rejected string | Resolved "references option"

text \<open>How a block of statements is left: by running to its end, or by a thrown error.\<close>

datatype completion = Completed | Thrown string

definition EXCLUDED_CONTENT_TYPES :: "string list" where
  "EXCLUDED_CONTENT_TYPES =
     [''article'', ''page'', ''articleType'', ''person'', ''tag'', ''template'',
      ''customType'', ''navigation'']"

section \<open>The reference collector\<close>

text \<open>
  The variables of \<open>fetchReferencesIteratively\<close>: the four members of \<open>allReferences\<close>,
  the queue, the three tracking sets and the two counters. Two more members record what
  the function does to its surroundings: the ids passed to \<open>sdk.cma.entry.references\<close>
  and the arguments of \<open>setProgress\<close>, both in call order.
\<close>

record collector =
  entries :: "entry list"
  assets :: "asset list"
  errors :: "reference_error list"
  processedEntryIds :: "string set"
  entriesToProcess :: "string list"
  entriesQueued :: "string set"
  trackedEntryIds :: "string set"
  trackedAssetIds :: "string set"
  processed :: nat
  total_count :: nat
  fetchLog :: "string list"
  progressLog :: "(nat \<times> nat) list"

definition initial :: "string \<Rightarrow> collector" where
  "initial entryId =
     \<lparr>entries = [], assets = [], errors = [], processedEntryIds = {},
      entriesToProcess = [entryId], entriesQueued = {entryId},
      trackedEntryIds = {}, trackedAssetIds = {},
      processed = 0, total_count = 1, fetchLog = [], progressLog = []\<rparr>"

definition setProgress :: "collector \<Rightarrow> collector" where
  "setProgress s = s\<lparr>progressLog := progressLog s @ [(processed s, total_count s)]\<rparr>"

text \<open>
  The arguments of the two \<open>debug\<close> calls are evaluated although \<open>debug\<close> ignores them.
  For an asset the argument reads \<open>asset.fields.title["en-US"]\<close>, which throws a
  TypeError when the asset has no title (a lookup in \<open>undefined\<close>); with a title it
  yields a text or \<open>undefined\<close>. For an entry it reads
  \<open>Object.entries(entry.fields)[0][1]["en-US"]\<close>, which throws a TypeError when the
  entry has no field at all (\<open>fields: {}\<close>) or when the value of its first field is
  \<open>null\<close>/\<open>undefined\<close>.
\<close>

definition debugAsset :: "asset \<Rightarrow> completion" where
  "debugAsset a =
     (case asset_title a of
        None \<Rightarrow> Thrown ''TypeError''
      | Some title \<Rightarrow> Completed)"

definition debugEntry :: "entry \<Rightarrow> completion" where
  "debugEntry e =
     (case entry_fields e of
        [] \<Rightarrow> Thrown ''TypeError''
      | (k, None) # fs \<Rightarrow> Thrown ''TypeError''
      | (k, Some v) # fs \<Rightarrow> Completed)"

text \<open>
  The loop over \<open>references.includes.Asset\<close>: it is left by the error that the \<open>debug\<close>
  argument of an asset throws, with the assets before that one taken over.
\<close>

fun processAssets :: "asset list \<Rightarrow> collector \<Rightarrow> completion \<times> collector" where
  "processAssets [] s = (Completed, s)"
| "processAssets (a # as) s =
     (case debugAsset a of
        Thrown err \<Rightarrow> (Thrown err, s)
      | Completed \<Rightarrow>
          processAssets as
            (if sys_id (asset_sys a) \<notin> trackedAssetIds s
             then s\<lparr>assets := assets s @ [a],
                    trackedAssetIds := insert (sys_id (asset_sys a)) (trackedAssetIds s)\<rparr>
             else s))"

text \<open>The body of the loop over the included entries, after the \<open>debug\<close> call.\<close>

definition processEntry :: "entry \<Rightarrow> collector \<Rightarrow> collector" where
  "processEntry e s =
     (let entryId = sys_id (entry_sys e);
          s1 = (if entryId \<notin> trackedEntryIds s
                then s\<lparr>entries := entries s @ [e],
                       trackedEntryIds := insert entryId (trackedEntryIds s)\<rparr>
                else s)
      in if contentType e \<notin> set EXCLUDED_CONTENT_TYPES \<and> entryId \<notin> entriesQueued s1
         then setProgress
                (s1\<lparr>entriesToProcess := entriesToProcess s1 @ [entryId],
                    entriesQueued := insert entryId (entriesQueued s1),
                    total_count := total_count s1 + 1\<rparr>)
         else s1)"

fun processEntries :: "entry list \<Rightarrow> collector \<Rightarrow> completion \<times> collector" where
  "processEntries [] s = (Completed, s)"
| "processEntries (e # es) s =
     (case debugEntry e of
        Thrown err \<Rightarrow> (Thrown err, s)
      | Completed \<Rightarrow> processEntries es (processEntry e s))"

text \<open>The \<open>catch\<close> block: a synthetic error for the current id, then the progress update.\<close>

definition onError :: "string \<Rightarrow> string \<Rightarrow> collector \<Rightarrow> collector" where
  "onError currentEntryId err s =
     setProgress
       (s\<lparr>errors := errors s @
              [\<lparr>err_id = currentEntryId, err_type = ''Entry'',
                err_message = ''Error fetching references: '' @ err\<rparr>],
          processed := processed s + 1\<rparr>)"

text \<open>
  One turn of the \<open>while\<close> loop, after \<open>shift()\<close> has taken \<open>currentEntryId\<close> off the
  queue: the \<open>try\<close> block with its two \<open>continue\<close>s and the \<open>catch\<close> block. The client
  is the function \<open>fetch\<close>: what awaiting \<open>sdk.cma.entry.references({entryId})\<close> yields
  for each id.
\<close>

definition visit :: "(string \<Rightarrow> fetch_result) \<Rightarrow> string \<Rightarrow> collector \<Rightarrow> collector" where
  "visit fetch currentEntryId s =
     (if currentEntryId \<in> processedEntryIds s then s
      else
        let s1 = s\<lparr>processedEntryIds := insert currentEntryId (processedEntryIds s),
                   fetchLog := fetchLog s @ [currentEntryId]\<rparr>
        in case fetch currentEntryId of
             Rejected err \<Rightarrow> onError currentEntryId err s1
           | Resolved None \<Rightarrow> setProgress (s1\<lparr>processed := processed s1 + 1\<rparr>)
           | Resolved (Some refs) \<Rightarrow>
               (let s2 = setProgress (s1\<lparr>processed := processed s1 + 1\<rparr>);
                    s3 = s2\<lparr>errors := errors s2 @ ref_errors refs\<rparr>
                in case processAssets (includes_Asset refs) s3 of
                     (Thrown err, s4) \<Rightarrow> onError currentEntryId err s4
                   | (Completed, s4) \<Rightarrow>
                       (case processEntries (includes_Entry refs) s4 of
                          (Thrown err, s5) \<Rightarrow> onError currentEntryId err s5
                        | (Completed, s5) \<Rightarrow> s5)))"

text \<open>
  The \<open>while\<close> loop. It may run forever on an unbounded graph, so it is a partial
  function: \<open>None\<close> stands for a loop that never leaves.
\<close>

partial_function (option) processQueue ::
  "(string \<Rightarrow> fetch_result) \<Rightarrow> collector \<Rightarrow> collector option" where
  "processQueue fetch s =
     (case entriesToProcess s of
        [] \<Rightarrow> Some s
      | currentEntryId # rest \<Rightarrow>
          processQueue fetch (visit fetch currentEntryId (s\<lparr>entriesToProcess := rest\<rparr>)))"

text \<open>
  How an \<open>async\<close> function settles: fulfilled with its return value, or rejected with the
  error that escaped it.
\<close>

datatype 'a settled = Fulfilled 'a | Escaped string

text \<open>
  \<open>fetchReferencesIteratively\<close>: every statement that can throw stands inside the
  \<open>try\<close> block of the loop, so the promise is fulfilled whenever the loop leaves. The
  value is the final state; its members \<open>entries\<close>, \<open>assets\<close>, \<open>errors\<close> and
  \<open>processedEntryIds\<close> are the \<open>allReferences\<close> that the function returns.
\<close>

definition fetchReferencesIteratively ::
  "(string \<Rightarrow> fetch_result) \<Rightarrow> string \<Rightarrow> collector settled option" where
  "fetchReferencesIteratively fetch entryId =
     map_option Fulfilled (processQueue fetch (initial entryId))"

section \<open>The status classifier\<close>

text \<open>
  \<open>isDraft\<close>, \<open>isPublished\<close> and \<open>isUpdated\<close> are imported from the
  contentful-management library; they read the \<open>sys\<close> block of their argument. They are
  parameters here.
\<close>

record lifecycle_checks =
  isDraft :: "sys \<Rightarrow> bool"
  isPublished :: "sys \<Rightarrow> bool"
  isUpdated :: "sys \<Rightarrow> bool"

record IReferenceInformation =
  info_published :: bool
  info_errors :: "reference_error list"
  errorCount :: nat
  entryCount :: nat
  draftEntries :: "entry list"
  updatedEntries :: "entry list"
  draftEntryCount :: nat
  updatedEntryCount :: nat
  assetCount :: nat
  draftAssets :: "asset list"
  updatedAssets :: "asset list"
  draftAssetCount :: nat
  updatedAssetCount :: nat

text \<open>
  The filter predicate \<open>publishedDate && x.sys.publishedAt && x.sys.publishedAt > publishedDate\<close>:
  an absent or empty string is falsy, and \<open>>\<close> on two strings compares them
  lexicographically.
\<close>

definition publishedAfter :: "string option \<Rightarrow> string option \<Rightarrow> bool" where
  "publishedAfter publishedDate publishedAt =
     (case publishedDate of
        None \<Rightarrow> False
      | Some d \<Rightarrow>
          (case publishedAt of
             None \<Rightarrow> False
           | Some t \<Rightarrow> d \<noteq> [] \<and> t \<noteq> [] \<and> d < t))"

definition isOutOfDate :: "sys \<Rightarrow> collector \<Rightarrow> bool" where
  "isOutOfDate entrySys allReferences =
     (let publishedDate = sys_publishedAt entrySys;
          assetsPublishedAfter =
            filter (\<lambda>a. publishedAfter publishedDate (sys_publishedAt (asset_sys a)))
              (assets allReferences);
          entriesPublishedAfter =
            filter (\<lambda>e. publishedAfter publishedDate (sys_publishedAt (entry_sys e)))
              (entries allReferences)
      in length assetsPublishedAfter > 0 \<or> length entriesPublishedAfter > 0)"

definition buildReferenceInformation ::
  "lifecycle_checks \<Rightarrow> sys \<Rightarrow> collector \<Rightarrow> IReferenceInformation" where
  "buildReferenceInformation chk entrySys allReferences =
     (let published = isPublished chk entrySys \<and> \<not> isUpdated chk entrySys;
          draftEs = filter (\<lambda>e. isDraft chk (entry_sys e)) (entries allReferences);
          updatedEs = filter (\<lambda>e. isUpdated chk (entry_sys e)) (entries allReferences);
          draftAs = filter (\<lambda>a. isDraft chk (asset_sys a)) (assets allReferences);
          updatedAs = filter (\<lambda>a. isUpdated chk (asset_sys a)) (assets allReferences)
      in \<lparr>info_published = published \<and> \<not> isOutOfDate entrySys allReferences,
          info_errors = errors allReferences,
          errorCount = length (errors allReferences),
          entryCount = length (entries allReferences),
          draftEntries = draftEs,
          updatedEntries = updatedEs,
          draftEntryCount = length draftEs,
          updatedEntryCount = length updatedEs,
          assetCount = length (assets allReferences),
          draftAssets = draftAs,
          updatedAssets = updatedAs,
          draftAssetCount = length draftAs,
          updatedAssetCount = length updatedAs\<rparr>)"

section \<open>The publish orchestrator\<close>

text \<open>
  The calls \<open>doPublish\<close> makes on the client: \<open>sdk.cma.asset.publish\<close> and
  \<open>sdk.cma.entry.publish\<close> with the id, \<open>sdk.entry.publish()\<close> for the entry the sidebar
  belongs to, and \<open>sdk.cma.scheduledActions.create\<close> with the space id, the environment
  id, the link type, the entity id and the \<open>scheduledFor.datetime\<close>.
\<close>

datatype entityType = Asset | Entry

datatype call =
    AssetPublish string
  | EntryPublish string
  | RootPublish
  | ScheduleCreate string string entityType string string

text \<open>
  How a call settles: rejected with an error, or resolved; \<open>Resolve i\<close> carries the
  \<open>sys.id\<close> of the resolved object when it has one.
\<close>

datatype reply = Reject string | Resolve "string option"

text \<open>
  The surroundings of \<open>doPublish\<close>: the reply of the client to a call, which may depend
  on the calls made before it; the \<open>sys\<close> block that \<open>sdk.entry.getSys()\<close> returns; and
  \<open>new Date(s).toISOString()\<close>, which throws a RangeError (\<open>None\<close>) when \<open>s\<close> is not a
  date.
\<close>

record sdk =
  cma :: "call list \<Rightarrow> call \<Rightarrow> reply"
  getSys :: sys
  toISOString :: "string \<Rightarrow> string option"

record IPublishStatus =
  st_total :: nat
  st_published :: nat
  st_errors :: nat
  st_errored :: "sys list"
  st_isScheduled :: bool
  st_scheduledTime :: "string option"
  st_scheduledActionIds :: "string list"

text \<open>Which part of \<open>doPublish\<close> issued a call: one of the two loops, or the final step.\<close>

datatype origin = Dependency | Root

text \<open>
  The variables of \<open>doPublish\<close> (\<open>published\<close>, \<open>errors\<close>, \<open>errored\<close>,
  \<open>scheduledActionIds\<close>), the calls made on the client in order, each with its origin
  and its reply, and the arguments of \<open>setStatus\<close> in order (the two arrays of a status
  are recorded with the contents they have at the time of the call).
\<close>

record publisher =
  pub_published :: nat
  pub_errors :: nat
  pub_errored :: "sys list"
  pub_scheduledActionIds :: "string list"
  pub_calls :: "(origin \<times> call \<times> reply) list"
  pub_statuses :: "IPublishStatus list"

definition truthy :: "string option \<Rightarrow> bool" where
  "truthy x = (case x of None \<Rightarrow> False | Some t \<Rightarrow> t \<noteq> [])"

text \<open>Awaiting a call: the reply is the client's, and the call is recorded.\<close>

definition await :: "sdk \<Rightarrow> origin \<Rightarrow> call \<Rightarrow> publisher \<Rightarrow> reply \<times> publisher" where
  "await client org c p =
     (let r = cma client (map (\<lambda>x. fst (snd x)) (pub_calls p)) c
      in (r, p\<lparr>pub_calls := pub_calls p @ [(org, c, r)]\<rparr>))"

text \<open>
  The helper \<open>schedulePublish\<close>. It returns \<open>false\<close> without a call when there is no
  scheduled time; otherwise it creates the scheduled action, records its id when the
  resolved object has one, and rethrows what the call or \<open>toISOString\<close> throws.
\<close>

definition schedulePublish ::
  "sdk \<Rightarrow> string option \<Rightarrow> origin \<Rightarrow> entityType \<Rightarrow> string \<Rightarrow> string \<Rightarrow> string \<Rightarrow>
   publisher \<Rightarrow> completion \<times> publisher" where
  "schedulePublish client scheduledTime org entityType ident spaceId environmentId p =
     (case scheduledTime of
        None \<Rightarrow> (Completed, p)
      | Some t \<Rightarrow>
          if t = [] then (Completed, p)
          else
            (case toISOString client t of
               None \<Rightarrow> (Thrown ''RangeError'', p)
             | Some datetime \<Rightarrow>
                 (case await client org
                         (ScheduleCreate spaceId environmentId entityType ident datetime) p of
                    (Reject err, p1) \<Rightarrow> (Thrown err, p1)
                  | (Resolve None, p1) \<Rightarrow> (Completed, p1)
                  | (Resolve (Some i), p1) \<Rightarrow>
                      (Completed,
                       if i \<noteq> []
                       then p1\<lparr>pub_scheduledActionIds := pub_scheduledActionIds p1 @ [i]\<rparr>
                       else p1))))"

text \<open>The helper \<open>publishImmediately\<close>.\<close>

definition publishImmediately ::
  "sdk \<Rightarrow> origin \<Rightarrow> entityType \<Rightarrow> string \<Rightarrow> publisher \<Rightarrow> completion \<times> publisher" where
  "publishImmediately client org entityType ident p =
     (case await client org
             (case entityType of Asset \<Rightarrow> AssetPublish ident | Entry \<Rightarrow> EntryPublish ident) p of
        (Reject err, p1) \<Rightarrow> (Thrown err, p1)
      | (Resolve i, p1) \<Rightarrow> (Completed, p1))"

definition setStatus :: "nat \<Rightarrow> string option \<Rightarrow> publisher \<Rightarrow> publisher" where
  "setStatus total_items scheduledTime p =
     p\<lparr>pub_statuses := pub_statuses p @
          [\<lparr>st_total = total_items, st_published = pub_published p, st_errors = pub_errors p,
            st_errored = pub_errored p, st_isScheduled = truthy scheduledTime,
            st_scheduledTime = scheduledTime,
            st_scheduledActionIds = pub_scheduledActionIds p\<rparr>]\<rparr>"

text \<open>
  The body of the two loops, for one item with \<open>sys\<close> block \<open>x\<close>: the \<open>try\<close> block, the
  \<open>catch\<close> block and the status update.
\<close>

definition publishItem ::
  "sdk \<Rightarrow> nat \<Rightarrow> string option \<Rightarrow> entityType \<Rightarrow> sys \<Rightarrow> publisher \<Rightarrow> publisher" where
  "publishItem client total_items scheduledTime entityType x p =
     setStatus total_items scheduledTime
       (case (if truthy scheduledTime
              then schedulePublish client scheduledTime Dependency entityType
                     (sys_id x) (sys_space x) (sys_environment x) p
              else publishImmediately client Dependency entityType (sys_id x) p) of
          (Completed, p1) \<Rightarrow> p1\<lparr>pub_published := pub_published p1 + 1\<rparr>
        | (Thrown err, p1) \<Rightarrow>
            p1\<lparr>pub_errors := pub_errors p1 + 1, pub_errored := pub_errored p1 @ [x]\<rparr>)"

fun publishItems ::
  "sdk \<Rightarrow> nat \<Rightarrow> string option \<Rightarrow> entityType \<Rightarrow> sys list \<Rightarrow> publisher \<Rightarrow> publisher" where
  "publishItems client total_items scheduledTime entityType [] p = p"
| "publishItems client total_items scheduledTime entityType (x # xs) p =
     publishItems client total_items scheduledTime entityType xs
       (publishItem client total_items scheduledTime entityType x p)"

text \<open>The two loops, assets first: \<open>[...draftAssets, ...updatedAssets]\<close>, then
  \<open>[...draftEntries, ...updatedEntries]\<close>.\<close>

definition publishDependencies ::
  "sdk \<Rightarrow> IReferenceInformation \<Rightarrow> string option \<Rightarrow> publisher" where
  "publishDependencies client information scheduledTime =
     (let total_items = length (draftAssets information) + length (updatedAssets information) +
                  length (draftEntries information) + length (updatedEntries information);
          p0 = setStatus total_items scheduledTime
                 \<lparr>pub_published = 0, pub_errors = 0, pub_errored = [],
                  pub_scheduledActionIds = [], pub_calls = [], pub_statuses = []\<rparr>;
          p1 = publishItems client total_items scheduledTime Asset
                 (map asset_sys (draftAssets information @ updatedAssets information)) p0
      in publishItems client total_items scheduledTime Entry
           (map entry_sys (draftEntries information @ updatedEntries information)) p1)"

text \<open>The last step: the main entry, scheduled or published, when no item has failed.\<close>

definition publishRoot :: "sdk \<Rightarrow> string option \<Rightarrow> publisher \<Rightarrow> publisher" where
  "publishRoot client scheduledTime p =
     (if pub_errors p = 0
      then
        (case (if truthy scheduledTime
               then schedulePublish client scheduledTime Root Entry
                      (sys_id (getSys client)) (sys_space (getSys client))
                      (sys_environment (getSys client)) p
               else
                 (case await client Root RootPublish p of
                    (Reject err, p1) \<Rightarrow> (Thrown err, p1)
                  | (Resolve i, p1) \<Rightarrow> (Completed, p1))) of
           (Completed, p1) \<Rightarrow> p1
         | (Thrown err, p1) \<Rightarrow> p1\<lparr>pub_errors := pub_errors p1 + 1\<rparr>)
      else p)"

definition doPublish ::
  "sdk \<Rightarrow> IReferenceInformation \<Rightarrow> string option \<Rightarrow> bool \<times> publisher" where
  "doPublish client information scheduledTime =
     (let p = publishRoot client scheduledTime
                (publishDependencies client information scheduledTime)
      in (pub_errors p = 0, p))"

section \<open>Notions used in the statements\<close>

subsection \<open>The reference graph\<close>

abbreviation entry_id :: "entry \<Rightarrow> string" where
  "entry_id e \<equiv> sys_id (entry_sys e)"

abbreviation asset_id :: "asset \<Rightarrow> string" where
  "asset_id a \<equiv> sys_id (asset_sys a)"

text \<open>
  The graph that the collector walks is given by the client: the successors of an id are
  the ids of the entries that its response lists with a content type that is not excluded.
  An id is reachable when a path of successors leads to it from the root.
\<close>

definition successors :: "(string \<Rightarrow> fetch_result) \<Rightarrow> string \<Rightarrow> string list" where
  "successors fetch u =
     (case fetch u of
        Resolved (Some refs) \<Rightarrow>
          map entry_id
            (filter (\<lambda>e. contentType e \<notin> set EXCLUDED_CONTENT_TYPES) (includes_Entry refs))
      | _ \<Rightarrow> [])"

inductive_set reachable :: "(string \<Rightarrow> fetch_result) \<Rightarrow> string \<Rightarrow> string set"
  for fetch :: "string \<Rightarrow> fetch_result" and root :: string where
  root: "root \<in> reachable fetch root"
| step: "u \<in> reachable fetch root \<Longrightarrow> v \<in> set (successors fetch u) \<Longrightarrow> v \<in> reachable fetch root"

text \<open>
  The assets and the entries of a response that the two loops come to: the assets before
  the first asset on which the \<open>debug\<close> argument throws, and, when no asset does, the
  entries before the first entry on which it throws. A fetched id renders when the
  argument throws for no asset and no entry of its response.
\<close>

definition examinedAssets :: "asset list \<Rightarrow> asset list" where
  "examinedAssets as = takeWhile (\<lambda>a. debugAsset a = Completed) as"

definition assetLoopCompletes :: "references \<Rightarrow> bool" where
  "assetLoopCompletes refs = list_all (\<lambda>a. debugAsset a = Completed) (includes_Asset refs)"

definition examined :: "entry list \<Rightarrow> entry list" where
  "examined es = takeWhile (\<lambda>e. debugEntry e = Completed) es"

definition renders :: "(string \<Rightarrow> fetch_result) \<Rightarrow> string \<Rightarrow> bool" where
  "renders fetch u =
     (case fetch u of
        Resolved (Some refs) \<Rightarrow>
          assetLoopCompletes refs \<and>
          list_all (\<lambda>e. debugEntry e = Completed) (includes_Entry refs)
      | _ \<Rightarrow> True)"

text \<open>The synthetic error that the \<open>catch\<close> block files for an id.\<close>

definition synthetic :: "string \<Rightarrow> string \<Rightarrow> reference_error" where
  "synthetic u err =
     \<lparr>err_id = u, err_type = ''Entry'', err_message = ''Error fetching references: '' @ err\<rparr>"

subsection \<open>The calls of a publish run\<close>

text \<open>
  The calls of a run without their replies; whether a reply is a success; whether a call
  publishes at once; and the number that \<open>doPublish\<close> names \<open>total\<close>.
\<close>

definition issued :: "publisher \<Rightarrow> (origin \<times> call) list" where
  "issued p = map (\<lambda>x. (fst x, fst (snd x))) (pub_calls p)"

definition resolved :: "reply \<Rightarrow> bool" where
  "resolved r = (case r of Reject err \<Rightarrow> False | Resolve i \<Rightarrow> True)"

definition immediate :: "call \<Rightarrow> bool" where
  "immediate c =
     (case c of
        AssetPublish i \<Rightarrow> True
      | EntryPublish i \<Rightarrow> True
      | RootPublish \<Rightarrow> True
      | ScheduleCreate sp env ty i dt \<Rightarrow> False)"

definition total_of :: "IReferenceInformation \<Rightarrow> nat" where
  "total_of information =
     length (draftAssets information) + length (updatedAssets information) +
     length (draftEntries information) + length (updatedEntries information)"

text \<open>
  The call that the loop body makes for one item, and the call of the last step for the
  root: a publish call without a scheduled time, a scheduled action with one, and none
  when the scheduled time is not a date.
\<close>

definition itemCalls ::
  "sdk \<Rightarrow> string option \<Rightarrow> origin \<Rightarrow> entityType \<Rightarrow> sys \<Rightarrow> (origin \<times> call) list" where
  "itemCalls client scheduledTime org entityType x =
     (case scheduledTime of
        None \<Rightarrow> [(org, case entityType of Asset \<Rightarrow> AssetPublish (sys_id x)
                                          | Entry \<Rightarrow> EntryPublish (sys_id x))]
      | Some t \<Rightarrow>
          if t = [] then [(org, case entityType of Asset \<Rightarrow> AssetPublish (sys_id x)
                                                  | Entry \<Rightarrow> EntryPublish (sys_id x))]
          else (case toISOString client t of
                  None \<Rightarrow> []
                | Some datetime \<Rightarrow>
                    [(org, ScheduleCreate (sys_space x) (sys_environment x) entityType
                             (sys_id x) datetime)]))"

definition rootCalls :: "sdk \<Rightarrow> string option \<Rightarrow> (origin \<times> call) list" where
  "rootCalls client scheduledTime =
     (case scheduledTime of
        None \<Rightarrow> [(Root, RootPublish)]
      | Some t \<Rightarrow>
          if t = [] then [(Root, RootPublish)]
          else (case toISOString client t of
                  None \<Rightarrow> []
                | Some datetime \<Rightarrow>
                    [(Root, ScheduleCreate (sys_space (getSys client))
                              (sys_environment (getSys client)) Entry
                              (sys_id (getSys client)) datetime)]))"

text \<open>The ids that the replies of a log carry: one for each resolved reply with a non-empty id.\<close>

definition recordedIds :: "(origin \<times> call \<times> reply) list \<Rightarrow> string list" where
  "recordedIds log =
     concat (map (\<lambda>x. case snd (snd x) of
                          Resolve (Some i) \<Rightarrow> if i \<noteq> [] then [i] else []
                        | _ \<Rightarrow> []) log)"

text \<open>
  The contract of \<open>sdk.cma.scheduledActions.create\<close>: it rejects, or it resolves to the
  created action, which carries its id. And the call that schedules one item at the
  datetime \<open>dt\<close>.
\<close>

definition createsCarryIds :: "sdk \<Rightarrow> bool" where
  "createsCarryIds client \<longleftrightarrow>
     (\<forall>h sp env ty i dt r. cma client h (ScheduleCreate sp env ty i dt) = Resolve r \<longrightarrow> truthy r)"

definition scheduleCall :: "origin \<Rightarrow> entityType \<Rightarrow> string \<Rightarrow> sys \<Rightarrow> origin \<times> call" where
  "scheduleCall org entityType dt x =
     (org, ScheduleCreate (sys_space x) (sys_environment x) entityType (sys_id x) dt)"

section \<open>Invariants of the collector's loop\<close>

declare processQueue.simps [code]

text \<open>
  The ids that the loop over a response's entries appends to the queue, given the ids
  queued so far, and the same for the response of an id.
\<close>

fun newlyQueued :: "entry list \<Rightarrow> string set \<Rightarrow> string list" where
  "newlyQueued [] Q = []"
| "newlyQueued (e # es) Q =
     (case debugEntry e of
        Thrown err \<Rightarrow> []
      | Completed \<Rightarrow>
          if contentType e \<notin> set EXCLUDED_CONTENT_TYPES \<and> entry_id e \<notin> Q
          then entry_id e # newlyQueued es (insert (entry_id e) Q)
          else newlyQueued es Q)"

definition discovered :: "(string \<Rightarrow> fetch_result) \<Rightarrow> string \<Rightarrow> string set \<Rightarrow> string list" where
  "discovered fetch c Q =
     (case fetch c of
        Resolved (Some refs) \<Rightarrow>
          if assetLoopCompletes refs then newlyQueued (includes_Entry refs) Q else []
      | _ \<Rightarrow> [])"

text \<open>
  The state of \<open>visit\<close> when the fetch for \<open>c\<close> has resolved to \<open>refs\<close>, progress has been
  reported, the errors of the response have been taken over and the loop over its assets
  has been left.
\<close>

definition afterFetch :: "string \<Rightarrow> references \<Rightarrow> collector \<Rightarrow> collector" where
  "afterFetch c refs s =
     (let s2 = setProgress (s\<lparr>processedEntryIds := insert c (processedEntryIds s),
                        fetchLog := fetchLog s @ [c], processed := processed s + 1\<rparr>)
      in snd (processAssets (includes_Asset refs) (s2\<lparr>errors := errors s2 @ ref_errors refs\<rparr>)))"

text \<open>
  At the head of the loop: the ids fetched so far followed by the queue are distinct, the
  ids fetched are the ids marked as processed, the ids queued are these and the queue,
  and \<open>total\<close> counts them. The entry set and the asset set hold each id once, and the
  tracking sets are their ids.
\<close>

definition queue_ok :: "collector \<Rightarrow> bool" where
  "queue_ok s \<longleftrightarrow>
     distinct (fetchLog s @ entriesToProcess s) \<and>
     set (fetchLog s) = processedEntryIds s \<and>
     entriesQueued s = set (fetchLog s) \<union> set (entriesToProcess s) \<and>
     total_count s = length (fetchLog s) + length (entriesToProcess s)"

definition universe_ok :: "collector \<Rightarrow> bool" where
  "universe_ok s \<longleftrightarrow>
     distinct (map entry_id (entries s)) \<and> entry_id ` set (entries s) = trackedEntryIds s \<and>
     distinct (map asset_id (assets s)) \<and> asset_id ` set (assets s) = trackedAssetIds s"

text \<open>The assets of every fetched response that the loop came to are tracked.\<close>

definition assets_seen :: "(string \<Rightarrow> fetch_result) \<Rightarrow> collector \<Rightarrow> bool" where
  "assets_seen fetch s \<longleftrightarrow>
     (\<forall>u refs. u \<in> set (fetchLog s) \<and> fetch u = Resolved (Some refs) \<longrightarrow>
        asset_id ` set (examinedAssets (includes_Asset refs)) \<subseteq> trackedAssetIds s)"

definition collected :: "(string \<Rightarrow> fetch_result) \<Rightarrow> collector \<Rightarrow> bool" where
  "collected fetch s \<longleftrightarrow> queue_ok s \<and> universe_ok s \<and> assets_seen fetch s"

text \<open>Every rejected fetch has its synthetic error.\<close>

definition failures_recorded :: "(string \<Rightarrow> fetch_result) \<Rightarrow> collector \<Rightarrow> bool" where
  "failures_recorded fetch s \<longleftrightarrow>
     (\<forall>u err. u \<in> set (fetchLog s) \<and> fetch u = Rejected err \<longrightarrow> synthetic u err \<in> set (errors s))"

definition recorded :: "(string \<Rightarrow> fetch_result) \<Rightarrow> collector \<Rightarrow> bool" where
  "recorded fetch s \<longleftrightarrow> queue_ok s \<and> failures_recorded fetch s"

text \<open>
  The progress reports: \<open>processed\<close> grows from report to report and stays below the
  current counter; the last report carries the current counters; \<open>processed\<close> is at
  most \<open>total\<close> in every report.
\<close>

definition sorted_reports :: "collector \<Rightarrow> bool" where
  "sorted_reports s \<longleftrightarrow>
     sorted (map fst (progressLog s)) \<and> (\<forall>x \<in> set (progressLog s). fst x \<le> processed s)"

definition synced :: "collector \<Rightarrow> bool" where
  "synced s \<longleftrightarrow> progressLog s \<noteq> [] \<and> last (progressLog s) = (processed s, total_count s)"

definition bounded_reports :: "collector \<Rightarrow> bool" where
  "bounded_reports s \<longleftrightarrow>
     processed s \<le> total_count s \<and> (\<forall>x \<in> set (progressLog s). fst x \<le> snd x)"

definition progress_ok :: "(string \<Rightarrow> fetch_result) \<Rightarrow> collector \<Rightarrow> bool" where
  "progress_ok fetch s \<longleftrightarrow>
     queue_ok s \<and> sorted_reports s \<and> (entriesToProcess s \<noteq> [] \<or> synced s) \<and>
     ((\<forall>u \<in> set (fetchLog s). renders fetch u) \<longrightarrow>
        processed s = length (fetchLog s) \<and> (\<forall>x \<in> set (progressLog s). fst x \<le> snd x))"

text \<open>
  Where the ids queued come from and what the universe holds: the successors of a fetched
  id that renders are queued; an id queued is the root or a successor of a fetched id; the
  entries the loop came to are tracked; every entry and asset of the universe is listed in
  a fetched response.
\<close>

definition closed_under :: "(string \<Rightarrow> fetch_result) \<Rightarrow> collector \<Rightarrow> bool" where
  "closed_under fetch s \<longleftrightarrow>
     (\<forall>u \<in> set (fetchLog s). renders fetch u \<longrightarrow> set (successors fetch u) \<subseteq> entriesQueued s)"

definition queued_from :: "(string \<Rightarrow> fetch_result) \<Rightarrow> string \<Rightarrow> collector \<Rightarrow> bool" where
  "queued_from fetch root s \<longleftrightarrow>
     (\<forall>x \<in> entriesQueued s. x = root \<or> (\<exists>u \<in> set (fetchLog s). x \<in> set (successors fetch u)))"

definition listed :: "(string \<Rightarrow> fetch_result) \<Rightarrow> collector \<Rightarrow> bool" where
  "listed fetch s \<longleftrightarrow>
     (\<forall>u refs. u \<in> set (fetchLog s) \<and> fetch u = Resolved (Some refs) \<and>
               assetLoopCompletes refs \<longrightarrow>
        entry_id ` set (examined (includes_Entry refs)) \<subseteq> trackedEntryIds s)"

definition sourced :: "(string \<Rightarrow> fetch_result) \<Rightarrow> collector \<Rightarrow> bool" where
  "sourced fetch s \<longleftrightarrow>
     (\<forall>e \<in> set (entries s). \<exists>u refs. u \<in> set (fetchLog s) \<and> fetch u = Resolved (Some refs) \<and>
                                     e \<in> set (includes_Entry refs)) \<and>
     (\<forall>a \<in> set (assets s). \<exists>u refs. u \<in> set (fetchLog s) \<and> fetch u = Resolved (Some refs) \<and>
                                    a \<in> set (includes_Asset refs))"

definition traversed :: "(string \<Rightarrow> fetch_result) \<Rightarrow> string \<Rightarrow> collector \<Rightarrow> bool" where
  "traversed fetch root s \<longleftrightarrow>
     queue_ok s \<and> universe_ok s \<and> root \<in> entriesQueued s \<and>
     entriesQueued s \<subseteq> reachable fetch root \<and> closed_under fetch s \<and>
     queued_from fetch root s \<and> listed fetch s \<and> sourced fetch s"

section \<open>Example inputs\<close>

text \<open>
  Snapshots: a published entry or asset with a title, an entry without fields and an asset
  without a title.
\<close>

definition sysOf :: "string \<Rightarrow> string \<Rightarrow> sys" where
  "sysOf t i =
     \<lparr>sys_id = i, sys_type = t, sys_space = ''space'', sys_environment = ''master'',
      sys_version = 2, sys_publishedVersion = Some 1,
      sys_publishedAt = Some ''2024-01-01T00:00:00.000Z''\<rparr>"

definition entryOf :: "string \<Rightarrow> string \<Rightarrow> entry" where
  "entryOf i ct =
     \<lparr>entry_sys = sysOf ''Entry'' i, contentType = ct,
      entry_fields = [(''title'', Some [(''en-US'', i)])]\<rparr>"

definition assetOf :: "string \<Rightarrow> asset" where
  "assetOf i = \<lparr>asset_sys = sysOf ''Asset'' i, asset_title = Some [(''en-US'', i)]\<rparr>"

definition untitledAsset :: "string \<Rightarrow> asset" where
  "untitledAsset i = \<lparr>asset_sys = sysOf ''Asset'' i, asset_title = None\<rparr>"

definition blankEntry :: "string \<Rightarrow> string \<Rightarrow> entry" where
  "blankEntry i ct = \<lparr>entry_sys = sysOf ''Entry'' i, contentType = ct, entry_fields = []\<rparr>"

definition response :: "asset list \<Rightarrow> entry list \<Rightarrow> fetch_result" where
  "response as es = Resolved (Some \<lparr>ref_errors = [], includes_Asset = as, includes_Entry = es\<rparr>)"

text \<open>
  Graphs: three entries that include the same asset; the same three entries when each
  includes an asset without a title before it; a cycle of two entries; a root that cannot
  be fetched; a root with one entry that cannot be fetched and one that can; a cycle whose
  root lists an entry without fields first; a root that lists a page, an entry without
  fields and a second page; a root that lists a page and a block.
\<close>

definition sharedAssetGraph :: "string \<Rightarrow> fetch_result" where
  "sharedAssetGraph i =
     (if i = ''R'' then
        response [] [entryOf ''E1'' ''block'', entryOf ''E2'' ''block'', entryOf ''E3'' ''block'']
      else if i = ''E1'' \<or> i = ''E2'' \<or> i = ''E3'' then response [assetOf ''X''] []
      else Rejected ''NotFound'')"

definition sharedAfterUntitled :: "string \<Rightarrow> fetch_result" where
  "sharedAfterUntitled i =
     (if i = ''R'' then
        response [] [entryOf ''E1'' ''block'', entryOf ''E2'' ''block'', entryOf ''E3'' ''block'']
      else if i = ''E1'' \<or> i = ''E2'' \<or> i = ''E3'' then
        response [untitledAsset ''U'', assetOf ''X''] []
      else Rejected ''NotFound'')"

definition cycleAB :: "string \<Rightarrow> fetch_result" where
  "cycleAB i =
     (if i = ''A'' then response [] [entryOf ''B'' ''block'']
      else if i = ''B'' then response [] [entryOf ''A'' ''block'']
      else Rejected ''NotFound'')"

definition unreachableRoot :: "string \<Rightarrow> fetch_result" where
  "unreachableRoot i = Rejected ''Forbidden''"

definition middleFails :: "string \<Rightarrow> fetch_result" where
  "middleFails i =
     (if i = ''A'' then response [] [entryOf ''B'' ''block'', entryOf ''C'' ''block'']
      else if i = ''C'' then response [] []
      else Rejected ''Timeout'')"

definition blankFirst :: "string \<Rightarrow> fetch_result" where
  "blankFirst i =
     (if i = ''A'' then response [] [blankEntry ''E'' ''block'', entryOf ''B'' ''block'']
      else if i = ''B'' then response [] [entryOf ''A'' ''block'']
      else response [] [])"

definition pageAfterBlank :: "string \<Rightarrow> fetch_result" where
  "pageAfterBlank i =
     (if i = ''A'' then
        response [] [entryOf ''P'' ''page'', blankEntry ''E'' ''block'', entryOf ''Q'' ''page'']
      else Rejected ''NotFound'')"

definition excludedLeaf :: "string \<Rightarrow> fetch_result" where
  "excludedLeaf i =
     (if i = ''A'' then response [] [entryOf ''P'' ''page'', entryOf ''B'' ''block'']
      else if i = ''P'' then response [assetOf ''X''] [entryOf ''Q'' ''block'']
      else if i = ''B'' then response [] []
      else Rejected ''NotFound'')"

text \<open>
  The three checks as the contentful-management library defines them, on the version
  numbers of the \<open>sys\<close> block (\<open>!publishedVersion\<close>, \<open>!!publishedVersion\<close>, and
  \<open>publishedVersion && version > publishedVersion + 1\<close>); they instantiate the
  parameter in the examples.
\<close>

definition versionChecks :: lifecycle_checks where
  "versionChecks =
     \<lparr>isDraft = (\<lambda>x. case sys_publishedVersion x of None \<Rightarrow> True | Some v \<Rightarrow> v = 0),
      isPublished = (\<lambda>x. case sys_publishedVersion x of None \<Rightarrow> False | Some v \<Rightarrow> v \<noteq> 0),
      isUpdated = (\<lambda>x. case sys_publishedVersion x of
                         None \<Rightarrow> False | Some v \<Rightarrow> v \<noteq> 0 \<and> sys_version x > v + 1)\<rparr>"

text \<open>
  Roots and universes for the classifier: a root published at \<open>100\<close>, an asset published
  at \<open>150\<close>, a root that was never published.
\<close>

definition snapshotSys :: "string \<Rightarrow> string \<Rightarrow> nat \<Rightarrow> nat option \<Rightarrow> string option \<Rightarrow> sys" where
  "snapshotSys t i v pv at =
     \<lparr>sys_id = i, sys_type = t, sys_space = ''space'', sys_environment = ''master'',
      sys_version = v, sys_publishedVersion = pv, sys_publishedAt = at\<rparr>"

definition universeOf :: "asset list \<Rightarrow> entry list \<Rightarrow> collector" where
  "universeOf as es = (initial ''root'')\<lparr>assets := as, entries := es\<rparr>"

definition root100 :: sys where
  "root100 = snapshotSys ''Entry'' ''root'' 2 (Some 1) (Some ''100'')"

definition asset150 :: asset where
  "asset150 = \<lparr>asset_sys = snapshotSys ''Asset'' ''X'' 2 (Some 1) (Some ''150''), asset_title = Some []\<rparr>"

definition rootDraft :: sys where
  "rootDraft = snapshotSys ''Entry'' ''root'' 1 None None"

text \<open>Draft items and a reference information that holds the given lists.\<close>

definition rootSys :: sys where
  "rootSys =
     \<lparr>sys_id = ''root'', sys_type = ''Entry'', sys_space = ''space'',
      sys_environment = ''master'', sys_version = 3, sys_publishedVersion = Some 1,
      sys_publishedAt = Some ''2024-01-01T00:00:00.000Z''\<rparr>"

definition draftSys :: "string \<Rightarrow> string \<Rightarrow> sys" where
  "draftSys t i =
     \<lparr>sys_id = i, sys_type = t, sys_space = ''space'', sys_environment = ''master'',
      sys_version = 1, sys_publishedVersion = None, sys_publishedAt = None\<rparr>"

definition draftAsset :: "string \<Rightarrow> asset" where
  "draftAsset i = \<lparr>asset_sys = draftSys ''Asset'' i, asset_title = Some [(''en-US'', i)]\<rparr>"

definition draftEntry :: "string \<Rightarrow> entry" where
  "draftEntry i =
     \<lparr>entry_sys = draftSys ''Entry'' i, contentType = ''block'',
      entry_fields = [(''title'', Some [(''en-US'', i)])]\<rparr>"

definition informationOf ::
  "asset list \<Rightarrow> asset list \<Rightarrow> entry list \<Rightarrow> entry list \<Rightarrow> IReferenceInformation" where
  "informationOf dA uA dE uE =
     \<lparr>info_published = False, info_errors = [], errorCount = 0,
      entryCount = length dE + length uE,
      draftEntries = dE, updatedEntries = uE,
      draftEntryCount = length dE, updatedEntryCount = length uE,
      assetCount = length dA + length uA,
      draftAssets = dA, updatedAssets = uA,
      draftAssetCount = length dA, updatedAssetCount = length uA\<rparr>"

text \<open>
  A client that rejects every call on an id of \<open>bad\<close> and resolves every other call; a
  created scheduled action gets the id \<open>action-\<close> followed by the entity id.
\<close>

definition rejecting :: "string list \<Rightarrow> sdk" where
  "rejecting bad =
     \<lparr>cma = (\<lambda>h c. case c of
                AssetPublish i \<Rightarrow> if i \<in> set bad then Reject ''Conflict'' else Resolve (Some i)
              | EntryPublish i \<Rightarrow> if i \<in> set bad then Reject ''Conflict'' else Resolve (Some i)
              | RootPublish \<Rightarrow> Resolve (Some ''root'')
              | ScheduleCreate sp env ty i dt \<Rightarrow>
                  if i \<in> set bad then Reject ''Conflict'' else Resolve (Some (''action-'' @ i))),
      getSys = rootSys,
      toISOString = (\<lambda>s. Some (s @ '':00.000Z''))\<rparr>"

section \<open>The collector: one turn of the loop\<close>

text \<open>
  What the parts of a turn do to each variable, the invariant rule for the loop, the queue
  discipline, the uniqueness of ids in the universe, and termination on a finite graph.
\<close>

lemma processQueue_Nil: "entriesToProcess s = [] \<Longrightarrow> processQueue fetch s = Some s"
  by (subst processQueue.simps) simp

lemma processQueue_Cons:
  "entriesToProcess s = c # rest \<Longrightarrow>
   processQueue fetch s = processQueue fetch (visit fetch c (s\<lparr>entriesToProcess := rest\<rparr>))"
  by (subst processQueue.simps) simp

lemma processQueue_invariant:
  assumes run: "processQueue fetch s = Some r"
    and init: "I s"
    and step: "\<And>t c rest. I t \<Longrightarrow> entriesToProcess t = c # rest \<Longrightarrow>
                 I (visit fetch c (t\<lparr>entriesToProcess := rest\<rparr>))"
  shows "I r \<and> entriesToProcess r = []"
proof -
  have "fetch = fetch \<longrightarrow> I s \<longrightarrow> I r \<and> entriesToProcess r = []"
  proof (rule processQueue.raw_induct
      [where P = "\<lambda>f s r. f = fetch \<longrightarrow> I s \<longrightarrow> I r \<and> entriesToProcess r = []", OF _ run])
    fix loop :: "(string \<Rightarrow> fetch_result) \<Rightarrow> collector \<Rightarrow> collector option"
    fix f s r
    assume IH: "\<And>f s r. loop f s = Some r \<Longrightarrow> f = fetch \<longrightarrow> I s \<longrightarrow> I r \<and> entriesToProcess r = []"
      and body: "(case entriesToProcess s of [] \<Rightarrow> Some s
          | c # rest \<Rightarrow> loop f (visit f c (s\<lparr>entriesToProcess := rest\<rparr>))) = Some r"
    show "f = fetch \<longrightarrow> I s \<longrightarrow> I r \<and> entriesToProcess r = []"
    proof (intro impI)
      assume f: "f = fetch" and Is: "I s"
      show "I r \<and> entriesToProcess r = []"
      proof (cases "entriesToProcess s")
        case Nil
        with body Is show ?thesis by auto
      next
        case (Cons c rest)
        with body have "loop f (visit f c (s\<lparr>entriesToProcess := rest\<rparr>)) = Some r" by simp
        from IH[OF this] f step[OF Is Cons] show ?thesis by simp
      qed
    qed
  qed
  with init show ?thesis by simp
qed

lemma setProgress_simps [simp]:
  "entries (setProgress s) = entries s"
  "assets (setProgress s) = assets s"
  "errors (setProgress s) = errors s"
  "processedEntryIds (setProgress s) = processedEntryIds s"
  "entriesToProcess (setProgress s) = entriesToProcess s"
  "entriesQueued (setProgress s) = entriesQueued s"
  "trackedEntryIds (setProgress s) = trackedEntryIds s"
  "trackedAssetIds (setProgress s) = trackedAssetIds s"
  "processed (setProgress s) = processed s"
  "total_count (setProgress s) = total_count s"
  "fetchLog (setProgress s) = fetchLog s"
  "progressLog (setProgress s) = progressLog s @ [(processed s, total_count s)]"
  by (simp_all add: setProgress_def)

lemma onError_simps [simp]:
  "entries (onError c err s) = entries s"
  "assets (onError c err s) = assets s"
  "errors (onError c err s) = errors s @ [\<lparr>err_id = c, err_type = ''Entry'',
                err_message = ''Error fetching references: '' @ err\<rparr>]"
  "processedEntryIds (onError c err s) = processedEntryIds s"
  "entriesToProcess (onError c err s) = entriesToProcess s"
  "entriesQueued (onError c err s) = entriesQueued s"
  "trackedEntryIds (onError c err s) = trackedEntryIds s"
  "trackedAssetIds (onError c err s) = trackedAssetIds s"
  "processed (onError c err s) = processed s + 1"
  "total_count (onError c err s) = total_count s"
  "fetchLog (onError c err s) = fetchLog s"
  "progressLog (onError c err s) = progressLog s @ [(processed s + 1, total_count s)]"
  by (simp_all add: onError_def)

lemma processAssets_frame [simp]:
  "entries (snd (processAssets as s)) = entries s"
  "errors (snd (processAssets as s)) = errors s"
  "processedEntryIds (snd (processAssets as s)) = processedEntryIds s"
  "entriesToProcess (snd (processAssets as s)) = entriesToProcess s"
  "entriesQueued (snd (processAssets as s)) = entriesQueued s"
  "trackedEntryIds (snd (processAssets as s)) = trackedEntryIds s"
  "processed (snd (processAssets as s)) = processed s"
  "total_count (snd (processAssets as s)) = total_count s"
  "fetchLog (snd (processAssets as s)) = fetchLog s"
  "progressLog (snd (processAssets as s)) = progressLog s"
  by (induction as arbitrary: s; simp split: completion.splits)+

lemma processAssets_fst:
  "fst (processAssets as s) =
     (if list_all (\<lambda>a. debugAsset a = Completed) as then Completed else Thrown ''TypeError'')"
  by (induction as arbitrary: s) (auto simp: debugAsset_def split: option.splits)

lemma processEntry_frame [simp]:
  "assets (processEntry e s) = assets s"
  "errors (processEntry e s) = errors s"
  "processedEntryIds (processEntry e s) = processedEntryIds s"
  "trackedAssetIds (processEntry e s) = trackedAssetIds s"
  "processed (processEntry e s) = processed s"
  "fetchLog (processEntry e s) = fetchLog s"
  by (simp_all add: processEntry_def Let_def)

lemma processEntries_frame [simp]:
  "assets (snd (processEntries es s)) = assets s"
  "errors (snd (processEntries es s)) = errors s"
  "processedEntryIds (snd (processEntries es s)) = processedEntryIds s"
  "trackedAssetIds (snd (processEntries es s)) = trackedAssetIds s"
  "processed (snd (processEntries es s)) = processed s"
  "fetchLog (snd (processEntries es s)) = fetchLog s"
  by (induction es arbitrary: s; simp split: completion.splits)+

lemma processAssets_tracked:
  "trackedAssetIds (snd (processAssets as s)) =
   trackedAssetIds s \<union> asset_id ` set (examinedAssets as)"
  by (induction as arbitrary: s) (auto simp: examinedAssets_def split: completion.splits)

lemma processAssets_source: "set (assets (snd (processAssets as s))) \<subseteq> set (assets s) \<union> set as"
proof (induction as arbitrary: s)
  case (Cons a as)
  show ?case using Cons[of "s\<lparr>assets := assets s @ [a],
               trackedAssetIds := insert (asset_id a) (trackedAssetIds s)\<rparr>"] Cons[of s]
    by (auto split: completion.splits)
qed simp

lemma processAssets_distinct:
  "distinct (map asset_id (assets s)) \<Longrightarrow> asset_id ` set (assets s) = trackedAssetIds s \<Longrightarrow>
   distinct (map asset_id (assets (snd (processAssets as s)))) \<and>
   asset_id ` set (assets (snd (processAssets as s))) = trackedAssetIds (snd (processAssets as s))"
proof (induction as arbitrary: s)
  case Nil
  then show ?case by simp
next
  case (Cons a as)
  show ?case
  proof (cases "debugAsset a")
    case (Thrown err)
    with Cons.prems show ?thesis by simp
  next
    case Completed
    show ?thesis
    proof (cases "asset_id a \<in> trackedAssetIds s")
      case True
      then show ?thesis using Cons.IH[OF Cons.prems] Completed by simp
    next
      case False
      define s1 where "s1 = s\<lparr>assets := assets s @ [a],
                 trackedAssetIds := insert (asset_id a) (trackedAssetIds s)\<rparr>"
      have d: "distinct (map asset_id (assets s1))" using Cons.prems False by (auto simp: s1_def)
      have t: "asset_id ` set (assets s1) = trackedAssetIds s1" using Cons.prems by (auto simp: s1_def)
      have "processAssets (a # as) s = processAssets as s1" using False Completed by (simp add: s1_def)
      then show ?thesis using Cons.IH[OF d t] by simp
    qed
  qed
qed

lemma processEntry_effect [simp]:
  "trackedEntryIds (processEntry e s) = insert (entry_id e) (trackedEntryIds s)"
  "entries (processEntry e s) =
     (if entry_id e \<in> trackedEntryIds s then entries s else entries s @ [e])"
  "entriesToProcess (processEntry e s) =
     (if contentType e \<notin> set EXCLUDED_CONTENT_TYPES \<and> entry_id e \<notin> entriesQueued s
      then entriesToProcess s @ [entry_id e] else entriesToProcess s)"
  "entriesQueued (processEntry e s) =
     (if contentType e \<notin> set EXCLUDED_CONTENT_TYPES
      then insert (entry_id e) (entriesQueued s) else entriesQueued s)"
  "total_count (processEntry e s) =
     (if contentType e \<notin> set EXCLUDED_CONTENT_TYPES \<and> entry_id e \<notin> entriesQueued s
      then total_count s + 1 else total_count s)"
  "progressLog (processEntry e s) =
     (if contentType e \<notin> set EXCLUDED_CONTENT_TYPES \<and> entry_id e \<notin> entriesQueued s
      then progressLog s @ [(processed s, total_count s + 1)] else progressLog s)"
  by (auto simp: processEntry_def Let_def)

lemma newlyQueued_fresh: "set (newlyQueued es Q) \<inter> Q = {}"
  by (induction es arbitrary: Q) (auto split: completion.splits)

lemma newlyQueued_distinct: "distinct (newlyQueued es Q)"
proof (induction es arbitrary: Q)
  case (Cons e es)
  show ?case using Cons[of Q] Cons[of "insert (entry_id e) Q"]
      newlyQueued_fresh[of es "insert (entry_id e) Q"]
    by (auto split: completion.splits)
qed simp

lemma newlyQueued_source:
  "set (newlyQueued es Q) \<subseteq>
   entry_id ` {e \<in> set es. contentType e \<notin> set EXCLUDED_CONTENT_TYPES}"
proof (induction es arbitrary: Q)
  case (Cons e es)
  show ?case using Cons[of Q] Cons[of "insert (entry_id e) Q"]
    by (auto split: completion.splits)
qed simp

lemma processEntries_queue:
  "entriesToProcess (snd (processEntries es s)) =
   entriesToProcess s @ newlyQueued es (entriesQueued s)"
proof (induction es arbitrary: s)
  case (Cons e es)
  show ?case using Cons[of "processEntry e s"]
    by (simp split: completion.splits add: insert_absorb)
qed simp

lemma processEntries_queued:
  "entriesQueued (snd (processEntries es s)) =
   entriesQueued s \<union> set (newlyQueued es (entriesQueued s))"
proof (induction es arbitrary: s)
  case (Cons e es)
  show ?case using Cons[of "processEntry e s"] by (auto split: completion.splits simp: insert_absorb)
qed simp

lemma processEntries_total:
  "total_count (snd (processEntries es s)) =
   total_count s + length (newlyQueued es (entriesQueued s))"
proof (induction es arbitrary: s)
  case (Cons e es)
  show ?case using Cons[of "processEntry e s"] by (simp split: completion.splits add: insert_absorb)
qed simp

lemma processEntries_tracked_mono:
  "trackedEntryIds s \<subseteq> trackedEntryIds (snd (processEntries es s))"
proof (induction es arbitrary: s)
  case (Cons e es)
  show ?case using Cons[of "processEntry e s"] by (auto split: completion.splits)
qed simp

lemma processEntries_entries_mono:
  "set (entries s) \<subseteq> set (entries (snd (processEntries es s)))"
proof (induction es arbitrary: s)
  case (Cons e es)
  show ?case using Cons[of "processEntry e s"] by (auto split: completion.splits)
qed simp

lemma processEntries_entries_source:
  "set (entries (snd (processEntries es s))) \<subseteq> set (entries s) \<union> set es"
proof (induction es arbitrary: s)
  case (Cons e es)
  show ?case using Cons[of "processEntry e s"] by (auto split: completion.splits if_splits)
qed simp

lemma processEntries_distinct:
  "distinct (map entry_id (entries s)) \<Longrightarrow> entry_id ` set (entries s) = trackedEntryIds s \<Longrightarrow>
   distinct (map entry_id (entries (snd (processEntries es s)))) \<and>
   entry_id ` set (entries (snd (processEntries es s))) = trackedEntryIds (snd (processEntries es s))"
proof (induction es arbitrary: s)
  case Nil
  then show ?case by simp
next
  case (Cons e es)
  show ?case
  proof (cases "debugEntry e")
    case (Thrown err)
    with Cons.prems show ?thesis by simp
  next
    case Completed
    have d: "distinct (map entry_id (entries (processEntry e s)))"
      using Cons.prems by auto
    have t: "entry_id ` set (entries (processEntry e s)) = trackedEntryIds (processEntry e s)"
      using Cons.prems by auto
    show ?thesis using Cons.IH[OF d t] Completed by simp
  qed
qed

lemma processEntries_tracked_all:
  "fst (processEntries es s) = Completed \<Longrightarrow>
   trackedEntryIds (snd (processEntries es s)) = trackedEntryIds s \<union> entry_id ` set es"
proof (induction es arbitrary: s)
  case (Cons e es)
  show ?case using Cons.IH[of "processEntry e s"] Cons.prems
    by (auto split: completion.splits)
qed simp

lemma discovered_simps:
  "fetch c = Resolved (Some refs) \<Longrightarrow> assetLoopCompletes refs \<Longrightarrow>
   discovered fetch c Q = newlyQueued (includes_Entry refs) Q"
  "fetch c = Resolved (Some refs) \<Longrightarrow> \<not> assetLoopCompletes refs \<Longrightarrow> discovered fetch c Q = []"
  "fetch c = Resolved None \<Longrightarrow> discovered fetch c Q = []"
  "fetch c = Rejected err \<Longrightarrow> discovered fetch c Q = []"
  by (simp_all add: discovered_def)

lemma successors_simps:
  "fetch c = Resolved (Some refs) \<Longrightarrow>
   successors fetch c =
     map entry_id (filter (\<lambda>e. contentType e \<notin> set EXCLUDED_CONTENT_TYPES) (includes_Entry refs))"
  "fetch c = Resolved None \<Longrightarrow> successors fetch c = []"
  "fetch c = Rejected err \<Longrightarrow> successors fetch c = []"
  by (simp_all add: successors_def)

lemma fetch_cases:
  obtains (rejected) err where "fetch c = Rejected err"
  | (none) "fetch c = Resolved None"
  | (cut) refs where "fetch c = Resolved (Some refs)" and "\<not> assetLoopCompletes refs"
  | (some) refs where "fetch c = Resolved (Some refs)" and "assetLoopCompletes refs"
proof (cases "fetch c")
  case (Rejected err)
  then show ?thesis by (rule rejected)
next
  case (Resolved r)
  show ?thesis
  proof (cases r)
    case None
    with Resolved show ?thesis by (auto intro: none)
  next
    case (Some refs)
    with Resolved show ?thesis by (cases "assetLoopCompletes refs") (auto intro: cut some)
  qed
qed

lemma discovered_fresh: "set (discovered fetch c Q) \<inter> Q = {}"
  by (cases rule: fetch_cases[of fetch c]) (simp_all add: discovered_simps newlyQueued_fresh)

lemma discovered_distinct: "distinct (discovered fetch c Q)"
  by (cases rule: fetch_cases[of fetch c]) (simp_all add: discovered_simps newlyQueued_distinct)

lemma discovered_successors: "set (discovered fetch c Q) \<subseteq> set (successors fetch c)"
proof (cases rule: fetch_cases[of fetch c])
  case (some refs)
  then show ?thesis using newlyQueued_source[of "includes_Entry refs" Q]
    by (auto simp: discovered_simps successors_simps)
qed (simp_all add: discovered_simps)

lemma visit_skip: "c \<in> processedEntryIds s \<Longrightarrow> visit fetch c s = s"
  by (simp add: visit_def)

lemma visit_rejected:
  "c \<notin> processedEntryIds s \<Longrightarrow> fetch c = Rejected err \<Longrightarrow>
   visit fetch c s =
     onError c err (s\<lparr>processedEntryIds := insert c (processedEntryIds s),
                          fetchLog := fetchLog s @ [c]\<rparr>)"
  by (simp add: visit_def)

lemma visit_none:
  "c \<notin> processedEntryIds s \<Longrightarrow> fetch c = Resolved None \<Longrightarrow>
   visit fetch c s =
     setProgress (s\<lparr>processedEntryIds := insert c (processedEntryIds s),
                        fetchLog := fetchLog s @ [c], processed := processed s + 1\<rparr>)"
  by (simp add: visit_def)

lemma visit_cut:
  assumes "c \<notin> processedEntryIds s" and "fetch c = Resolved (Some refs)"
    and "\<not> assetLoopCompletes refs"
  shows "visit fetch c s = onError c ''TypeError'' (afterFetch c refs s)"
proof -
  let ?s3 = "(setProgress (s\<lparr>processedEntryIds := insert c (processedEntryIds s),
                        fetchLog := fetchLog s @ [c], processed := processed s + 1\<rparr>))
             \<lparr>errors := errors s @ ref_errors refs\<rparr>"
  obtain k s4 where p: "processAssets (includes_Asset refs) ?s3 = (k, s4)"
    by (cases "processAssets (includes_Asset refs) ?s3")
  from processAssets_fst[of "includes_Asset refs" ?s3] assms(3)
  have k: "k = Thrown ''TypeError''" unfolding p by (simp add: assetLoopCompletes_def)
  have a: "afterFetch c refs s = s4" using p by (simp add: afterFetch_def Let_def setProgress_def)
  show ?thesis unfolding a using assms(1,2) p k
    by (simp add: visit_def Let_def setProgress_def)
qed

lemma visit_resolved:
  assumes "c \<notin> processedEntryIds s" and "fetch c = Resolved (Some refs)"
    and "assetLoopCompletes refs"
  shows "visit fetch c s =
     (case fst (processEntries (includes_Entry refs) (afterFetch c refs s)) of
        Thrown err \<Rightarrow> onError c err (snd (processEntries (includes_Entry refs) (afterFetch c refs s)))
      | Completed \<Rightarrow> snd (processEntries (includes_Entry refs) (afterFetch c refs s)))"
proof -
  let ?s3 = "(setProgress (s\<lparr>processedEntryIds := insert c (processedEntryIds s),
                        fetchLog := fetchLog s @ [c], processed := processed s + 1\<rparr>))
             \<lparr>errors := errors s @ ref_errors refs\<rparr>"
  obtain k s4 where p: "processAssets (includes_Asset refs) ?s3 = (k, s4)"
    by (cases "processAssets (includes_Asset refs) ?s3")
  from processAssets_fst[of "includes_Asset refs" ?s3] assms(3)
  have k: "k = Completed" unfolding p by (simp add: assetLoopCompletes_def)
  have a: "afterFetch c refs s = s4" using p by (simp add: afterFetch_def Let_def setProgress_def)
  show ?thesis unfolding a using assms(1,2) p k
    by (simp add: visit_def Let_def setProgress_def split: prod.splits completion.splits)
qed

lemma afterFetch_simps [simp]:
  "entries (afterFetch c refs s) = entries s"
  "errors (afterFetch c refs s) = errors s @ ref_errors refs"
  "processedEntryIds (afterFetch c refs s) = insert c (processedEntryIds s)"
  "entriesToProcess (afterFetch c refs s) = entriesToProcess s"
  "entriesQueued (afterFetch c refs s) = entriesQueued s"
  "trackedEntryIds (afterFetch c refs s) = trackedEntryIds s"
  "processed (afterFetch c refs s) = processed s + 1"
  "total_count (afterFetch c refs s) = total_count s"
  "fetchLog (afterFetch c refs s) = fetchLog s @ [c]"
  "progressLog (afterFetch c refs s) = progressLog s @ [(processed s + 1, total_count s)]"
  by (simp_all add: afterFetch_def Let_def)

lemma visit_processed [simp]:
  "processedEntryIds (visit fetch c s) = insert c (processedEntryIds s)"
proof (cases "c \<in> processedEntryIds s")
  case True
  then show ?thesis by (simp add: visit_skip insert_absorb)
next
  case False
  then show ?thesis
    by (cases rule: fetch_cases[of fetch c])
       (simp_all add: visit_rejected visit_none visit_cut visit_resolved split: completion.splits)
qed

lemma visit_fetchLog:
  "c \<notin> processedEntryIds s \<Longrightarrow> fetchLog (visit fetch c s) = fetchLog s @ [c]"
  by (cases rule: fetch_cases[of fetch c])
     (simp_all add: visit_rejected visit_none visit_cut visit_resolved split: completion.splits)

lemma visit_queue:
  "c \<notin> processedEntryIds s \<Longrightarrow>
   entriesToProcess (visit fetch c s) = entriesToProcess s @ discovered fetch c (entriesQueued s)"
  by (cases rule: fetch_cases[of fetch c])
     (simp_all add: visit_rejected visit_none visit_cut visit_resolved discovered_simps processEntries_queue
        split: completion.splits)

lemma visit_queued:
  "c \<notin> processedEntryIds s \<Longrightarrow>
   entriesQueued (visit fetch c s) = entriesQueued s \<union> set (discovered fetch c (entriesQueued s))"
  by (cases rule: fetch_cases[of fetch c])
     (simp_all add: visit_rejected visit_none visit_cut visit_resolved discovered_simps processEntries_queued
        split: completion.splits)

lemma visit_total:
  "c \<notin> processedEntryIds s \<Longrightarrow>
   total_count (visit fetch c s) = total_count s + length (discovered fetch c (entriesQueued s))"
  by (cases rule: fetch_cases[of fetch c])
     (simp_all add: visit_rejected visit_none visit_cut visit_resolved discovered_simps processEntries_total
        split: completion.splits)

lemma queue_ok_initial: "queue_ok (initial root)"
  by (simp add: queue_ok_def initial_def)

lemma queue_ok_head_fresh:
  "queue_ok t \<Longrightarrow> entriesToProcess t = c # rest \<Longrightarrow> c \<notin> processedEntryIds t"
  by (auto simp: queue_ok_def)

lemma queue_ok_visit:
  assumes ok: "queue_ok t" and q: "entriesToProcess t = c # rest"
  shows "queue_ok (visit fetch c (t\<lparr>entriesToProcess := rest\<rparr>))"
proof -
  let ?m = "t\<lparr>entriesToProcess := rest\<rparr>"
  let ?D = "discovered fetch c (entriesQueued t)"
  have fresh: "c \<notin> processedEntryIds ?m" using queue_ok_head_fresh[OF ok q] by simp
  have fl: "fetchLog (visit fetch c ?m) = fetchLog t @ [c]"
    using visit_fetchLog[OF fresh, of fetch] by simp
  have qu: "entriesToProcess (visit fetch c ?m) = rest @ ?D"
    using visit_queue[OF fresh, of fetch] by simp
  have qd: "entriesQueued (visit fetch c ?m) = entriesQueued t \<union> set ?D"
    using visit_queued[OF fresh, of fetch] by simp
  have tt: "total_count (visit fetch c ?m) = total_count t + length ?D"
    using visit_total[OF fresh, of fetch] by simp
  have pr: "processedEntryIds (visit fetch c ?m) = insert c (processedEntryIds t)" by simp
  have D1: "distinct ?D" by (rule discovered_distinct)
  have D2: "set ?D \<inter> entriesQueued t = {}" by (rule discovered_fresh)
  have Q: "entriesQueued t = set (fetchLog t) \<union> insert c (set rest)"
    using ok q by (simp add: queue_ok_def)
  have "distinct (fetchLog t @ entriesToProcess t)" using ok unfolding queue_ok_def by (rule conjunct1)
  then have d0: "distinct (fetchLog t @ c # rest)" unfolding q .
  have "distinct ((fetchLog t @ [c]) @ rest @ ?D)"
    using d0 D1 D2 unfolding Q by auto
  moreover have "set (fetchLog t @ [c]) = insert c (processedEntryIds t)"
    using ok by (auto simp: queue_ok_def)
  moreover have "entriesQueued t \<union> set ?D = set (fetchLog t @ [c]) \<union> set (rest @ ?D)"
    unfolding Q by auto
  moreover have "total_count t + length ?D = length (fetchLog t @ [c]) + length (rest @ ?D)"
    using ok q by (simp add: queue_ok_def)
  ultimately show ?thesis
    unfolding queue_ok_def fl qu qd tt pr by (intro conjI) assumption+
qed

lemma universe_ok_initial: "universe_ok (initial root)"
  by (simp add: universe_ok_def initial_def)

lemma universe_ok_afterFetch:
  assumes "universe_ok s"
  shows "universe_ok (afterFetch c refs s)"
proof -
  let ?s3 = "(setProgress (s\<lparr>processedEntryIds := insert c (processedEntryIds s),
                        fetchLog := fetchLog s @ [c], processed := processed s + 1\<rparr>))
             \<lparr>errors := errors s @ ref_errors refs\<rparr>"
  have a: "distinct (map asset_id (assets ?s3))" "asset_id ` set (assets ?s3) = trackedAssetIds ?s3"
    using assms by (simp_all add: universe_ok_def)
  have "afterFetch c refs s = snd (processAssets (includes_Asset refs) ?s3)"
    by (simp add: afterFetch_def Let_def)
  then show ?thesis using processAssets_distinct[OF a] assms
    by (simp add: universe_ok_def)
qed

lemma universe_ok_processEntries:
  assumes "universe_ok s"
  shows "universe_ok (snd (processEntries es s))"
  using processEntries_distinct[of s es] assms by (simp add: universe_ok_def)

lemma universe_ok_onError: "universe_ok s \<Longrightarrow> universe_ok (onError c err s)"
  by (simp add: universe_ok_def)

lemma universe_ok_visit:
  assumes "universe_ok s"
  shows "universe_ok (visit fetch c s)"
proof (cases "c \<in> processedEntryIds s")
  case True
  then show ?thesis using assms by (simp add: visit_skip)
next
  case False
  show ?thesis
  proof (cases rule: fetch_cases[of fetch c])
    case (rejected err)
    then show ?thesis using assms False by (simp add: visit_rejected universe_ok_def)
  next
    case none
    then show ?thesis using assms False by (simp add: visit_none universe_ok_def)
  next
    case (cut refs)
    then show ?thesis using False
      by (simp add: visit_cut universe_ok_onError universe_ok_afterFetch assms)
  next
    case (some refs)
    have "universe_ok (snd (processEntries (includes_Entry refs) (afterFetch c refs s)))"
      by (intro universe_ok_processEntries universe_ok_afterFetch assms)
    then show ?thesis using some False
      by (simp add: visit_resolved universe_ok_onError split: completion.splits)
  qed
qed

lemma processQueue_terminates:
  assumes fin: "finite (reachable fetch root)"
    and start: "set (entriesToProcess s) \<subseteq> reachable fetch root"
  shows "\<exists>r. processQueue fetch s = Some r"
proof -
  have wfR: "wf (inv_image (less_than <*lex*> less_than)
       (\<lambda>s. (card (reachable fetch root - processedEntryIds s), length (entriesToProcess s))))"
    by (intro wf_inv_image wf_lex_prod wf_less_than)
  show ?thesis using start
  proof (induction s rule: wf_induct_rule[OF wfR])
  case (1 s)
  show ?case
  proof (cases "entriesToProcess s")
    case Nil
    then show ?thesis by (simp add: processQueue_Nil)
  next
    case (Cons c rest)
    let ?m = "s\<lparr>entriesToProcess := rest\<rparr>"
    let ?s' = "visit fetch c ?m"
    have cR: "c \<in> reachable fetch root" and restR: "set rest \<subseteq> reachable fetch root"
      using "1.prems" Cons by auto
    have sub: "set (entriesToProcess ?s') \<subseteq> reachable fetch root"
    proof (cases "c \<in> processedEntryIds s")
      case True
      then show ?thesis using restR by (simp add: visit_skip)
    next
      case False
      then have "entriesToProcess ?s' = rest @ discovered fetch c (entriesQueued s)"
        using visit_queue[of c ?m fetch] by simp
      moreover have "set (discovered fetch c (entriesQueued s)) \<subseteq> reachable fetch root"
        using discovered_successors[of fetch c "entriesQueued s"] cR
        by (auto intro: reachable.step)
      ultimately show ?thesis using restR by simp
    qed
    have dec: "(?s', s) \<in> inv_image (less_than <*lex*> less_than)
       (\<lambda>s. (card (reachable fetch root - processedEntryIds s), length (entriesToProcess s)))"
    proof (cases "c \<in> processedEntryIds s")
      case True
      then show ?thesis using Cons by (simp add: visit_skip)
    next
      case False
      have "reachable fetch root - insert c (processedEntryIds s) \<subset> reachable fetch root - processedEntryIds s"
        using False cR by auto
      then have "card (reachable fetch root - insert c (processedEntryIds s))
            < card (reachable fetch root - processedEntryIds s)"
        using fin by (intro psubset_card_mono) auto
      then show ?thesis by simp
    qed
    from "1.IH"[OF dec sub] show ?thesis using Cons by (simp add: processQueue_Cons)
  qed
  qed
qed

lemma afterFetch_trackedAssets:
  "trackedAssetIds (afterFetch c refs s) =
   trackedAssetIds s \<union> asset_id ` set (examinedAssets (includes_Asset refs))"
  by (simp add: afterFetch_def Let_def processAssets_tracked setProgress_def)

lemma visit_trackedAssets_mono: "trackedAssetIds s \<subseteq> trackedAssetIds (visit fetch c s)"
proof (cases "c \<in> processedEntryIds s")
  case True
  then show ?thesis by (simp add: visit_skip)
next
  case False
  then show ?thesis
    by (cases rule: fetch_cases[of fetch c])
       (auto simp: visit_rejected visit_none visit_cut visit_resolved afterFetch_trackedAssets
          split: completion.splits)
qed

lemma visit_trackedAssets_new:
  "c \<notin> processedEntryIds s \<Longrightarrow> fetch c = Resolved (Some refs) \<Longrightarrow>
   asset_id ` set (examinedAssets (includes_Asset refs)) \<subseteq> trackedAssetIds (visit fetch c s)"
  by (cases "assetLoopCompletes refs")
     (auto simp: visit_cut visit_resolved afterFetch_trackedAssets split: completion.splits)

lemma assets_seen_visit:
  assumes seen: "assets_seen fetch s" and fresh: "c \<notin> processedEntryIds s"
  shows "assets_seen fetch (visit fetch c s)"
  unfolding assets_seen_def
proof (intro allI impI)
  fix u refs
  assume h: "u \<in> set (fetchLog (visit fetch c s)) \<and> fetch u = Resolved (Some refs)"
  then have "u \<in> set (fetchLog s) \<or> u = c" using visit_fetchLog[OF fresh, of fetch] by auto
  then show "asset_id ` set (examinedAssets (includes_Asset refs)) \<subseteq>
              trackedAssetIds (visit fetch c s)"
  proof
    assume "u \<in> set (fetchLog s)"
    with seen h have "asset_id ` set (examinedAssets (includes_Asset refs)) \<subseteq> trackedAssetIds s"
      unfolding assets_seen_def by blast
    with visit_trackedAssets_mono[of s fetch c] show ?thesis by blast
  next
    assume "u = c"
    with h fresh show ?thesis using visit_trackedAssets_new[of c s fetch refs] by simp
  qed
qed

lemma distinct_map_count:
  "distinct (map f xs) \<Longrightarrow> x \<in> f ` set xs \<Longrightarrow> length (filter (\<lambda>b. f b = x) xs) = 1"
proof (induction xs)
  case Nil
  then show ?case by simp
next
  case (Cons y ys)
  show ?case
  proof (cases "f y = x")
    case True
    with Cons.prems have "x \<notin> f ` set ys" by auto
    then have "filter (\<lambda>b. f b = x) ys = []" by (auto simp: filter_empty_conv)
    with True show ?thesis by simp
  next
    case False
    with Cons show ?thesis by auto
  qed
qed

lemma collected_initial: "collected fetch (initial root)"
proof -
  have "assets_seen fetch (initial root)" by (simp add: assets_seen_def initial_def)
  then show ?thesis
    unfolding collected_def using queue_ok_initial universe_ok_initial by blast
qed

lemma collected_visit:
  assumes "collected fetch t" and q: "entriesToProcess t = c # rest"
  shows "collected fetch (visit fetch c (t\<lparr>entriesToProcess := rest\<rparr>))"
proof -
  let ?m = "t\<lparr>entriesToProcess := rest\<rparr>"
  from assms have ok: "queue_ok t" and u: "universe_ok t" and a: "assets_seen fetch t"
    by (simp_all add: collected_def)
  have fresh: "c \<notin> processedEntryIds ?m" using queue_ok_head_fresh[OF ok q] by simp
  have um: "universe_ok ?m" using u by (simp add: universe_ok_def)
  have am: "assets_seen fetch ?m" using a by (simp add: assets_seen_def)
  show ?thesis unfolding collected_def
    using queue_ok_visit[OF ok q] universe_ok_visit[OF um] assets_seen_visit[OF am fresh]
    by (intro conjI) assumption+
qed

lemma collected_final:
  assumes "processQueue fetch (initial root) = Some r"
  shows "collected fetch r \<and> entriesToProcess r = []"
  using processQueue_invariant[where I = "collected fetch", OF assms collected_initial]
    collected_visit by blast

lemma fetchReferencesIteratively_returns:
  assumes "finite (reachable fetch root)"
  shows "\<exists>r. fetchReferencesIteratively fetch root = Some (Fulfilled r) \<and>
             processQueue fetch (initial root) = Some r"
proof -
  have "set (entriesToProcess (initial root)) \<subseteq> reachable fetch root"
    by (simp add: initial_def reachable.root)
  from processQueue_terminates[OF assms this] show ?thesis
    by (auto simp: fetchReferencesIteratively_def)
qed

lemma reachable_subset:
  assumes "root \<in> S" and "\<And>u. u \<in> S \<Longrightarrow> set (successors fetch u) \<subseteq> S"
  shows "reachable fetch root \<subseteq> S"
proof
  fix x assume "x \<in> reachable fetch root"
  then show "x \<in> S" using assms by (induction rule: reachable.induct) auto
qed

lemma reachable_finite_list:
  assumes "List.member S root"
    and "list_all (\<lambda>u. list_all (List.member S) (successors fetch u)) S"
  shows "finite (reachable fetch root)"
proof -
  have "reachable fetch root \<subseteq> set S"
    using assms by (intro reachable_subset) (auto simp: list_all_iff)
  then show ?thesis by (rule finite_subset) simp
qed

section \<open>The collector: errors, progress and provenance\<close>

lemma visit_errors_mono: "set (errors s) \<subseteq> set (errors (visit fetch c s))"
proof (cases "c \<in> processedEntryIds s")
  case True
  then show ?thesis by (simp add: visit_skip)
next
  case False
  then show ?thesis
    by (cases rule: fetch_cases[of fetch c])
       (auto simp: visit_rejected visit_none visit_cut visit_resolved split: completion.splits)
qed

lemma visit_errors_rejected:
  "c \<notin> processedEntryIds s \<Longrightarrow> fetch c = Rejected err \<Longrightarrow>
   synthetic c err \<in> set (errors (visit fetch c s))"
  by (simp add: visit_rejected synthetic_def)

lemma failures_recorded_visit:
  assumes inv: "failures_recorded fetch s" and fresh: "c \<notin> processedEntryIds s"
  shows "failures_recorded fetch (visit fetch c s)"
  unfolding failures_recorded_def
proof (intro allI impI)
  fix u err
  assume h: "u \<in> set (fetchLog (visit fetch c s)) \<and> fetch u = Rejected err"
  then have "u \<in> set (fetchLog s) \<or> u = c" using visit_fetchLog[OF fresh, of fetch] by auto
  then show "synthetic u err \<in> set (errors (visit fetch c s))"
  proof
    assume "u \<in> set (fetchLog s)"
    with inv h have "synthetic u err \<in> set (errors s)" unfolding failures_recorded_def by blast
    with visit_errors_mono[of s fetch c] show ?thesis by blast
  next
    assume "u = c"
    with h fresh show ?thesis using visit_errors_rejected[of c s fetch err] by simp
  qed
qed

lemma recorded_initial: "recorded fetch (initial root)"
proof -
  have "failures_recorded fetch (initial root)" by (simp add: failures_recorded_def initial_def)
  then show ?thesis unfolding recorded_def using queue_ok_initial by blast
qed

lemma recorded_visit:
  assumes "recorded fetch t" and q: "entriesToProcess t = c # rest"
  shows "recorded fetch (visit fetch c (t\<lparr>entriesToProcess := rest\<rparr>))"
proof -
  let ?m = "t\<lparr>entriesToProcess := rest\<rparr>"
  from assms have ok: "queue_ok t" and f: "failures_recorded fetch t"
    by (simp_all add: recorded_def)
  have fresh: "c \<notin> processedEntryIds ?m" using queue_ok_head_fresh[OF ok q] by simp
  have fm: "failures_recorded fetch ?m" using f by (simp add: failures_recorded_def)
  show ?thesis unfolding recorded_def
    using queue_ok_visit[OF ok q] failures_recorded_visit[OF fm fresh]
    by (intro conjI) assumption+
qed

lemma recorded_final:
  assumes "processQueue fetch (initial root) = Some r"
  shows "recorded fetch r \<and> entriesToProcess r = []"
  using processQueue_invariant[where I = "recorded fetch", OF assms recorded_initial]
    recorded_visit by blast

lemma fetchReferencesIteratively_never_escapes:
  "fetchReferencesIteratively fetch root \<noteq> Some (Escaped e)"
  by (auto simp: fetchReferencesIteratively_def)

lemma processEntries_completed:
  "list_all (\<lambda>e. debugEntry e = Completed) es \<Longrightarrow> fst (processEntries es s) = Completed"
  by (induction es arbitrary: s) simp_all

lemma sorted_reports_processEntry: "sorted_reports s \<Longrightarrow> sorted_reports (processEntry e s)"
  by (auto simp: sorted_reports_def sorted_append)

lemma sorted_reports_processEntries:
  "sorted_reports s \<Longrightarrow> sorted_reports (snd (processEntries es s))"
proof (induction es arbitrary: s)
  case (Cons e es)
  show ?case using Cons.IH[OF sorted_reports_processEntry[OF Cons.prems, of e]] Cons.prems
    by (simp split: completion.splits)
qed simp

lemma synced_processEntry: "synced s \<Longrightarrow> synced (processEntry e s)"
  by (auto simp: synced_def)

lemma synced_processEntries: "synced s \<Longrightarrow> synced (snd (processEntries es s))"
proof (induction es arbitrary: s)
  case (Cons e es)
  show ?case using Cons.IH[OF synced_processEntry[OF Cons.prems, of e]] Cons.prems
    by (simp split: completion.splits)
qed simp

lemma bounded_reports_processEntry: "bounded_reports s \<Longrightarrow> bounded_reports (processEntry e s)"
  by (auto simp: bounded_reports_def)

lemma bounded_reports_processEntries:
  "bounded_reports s \<Longrightarrow> bounded_reports (snd (processEntries es s))"
proof (induction es arbitrary: s)
  case (Cons e es)
  show ?case using Cons.IH[OF bounded_reports_processEntry[OF Cons.prems, of e]] Cons.prems
    by (simp split: completion.splits)
qed simp

lemma sorted_reports_afterFetch: "sorted_reports s \<Longrightarrow> sorted_reports (afterFetch c refs s)"
  by (auto simp: sorted_reports_def sorted_append)

lemma sorted_reports_onError: "sorted_reports s \<Longrightarrow> sorted_reports (onError c err s)"
  by (auto simp: sorted_reports_def sorted_append)

lemma sorted_reports_visit:
  assumes "sorted_reports s"
  shows "sorted_reports (visit fetch c s)"
proof (cases "c \<in> processedEntryIds s")
  case True
  then show ?thesis using assms by (simp add: visit_skip)
next
  case False
  show ?thesis
  proof (cases rule: fetch_cases[of fetch c])
    case (rejected err)
    have "sorted_reports (s\<lparr>processedEntryIds := insert c (processedEntryIds s),
                          fetchLog := fetchLog s @ [c]\<rparr>)"
      using assms by (simp add: sorted_reports_def)
    then show ?thesis using rejected False
      by (simp add: visit_rejected sorted_reports_onError)
  next
    case none
    then show ?thesis using assms False
      by (auto simp: visit_none sorted_reports_def sorted_append)
  next
    case (cut refs)
    then show ?thesis using False
      by (simp add: visit_cut sorted_reports_onError sorted_reports_afterFetch assms)
  next
    case (some refs)
    have "sorted_reports (snd (processEntries (includes_Entry refs) (afterFetch c refs s)))"
      by (intro sorted_reports_processEntries sorted_reports_afterFetch assms)
    then show ?thesis using some False
      by (simp add: visit_resolved sorted_reports_onError split: completion.splits)
  qed
qed

lemma synced_visit:
  assumes "c \<notin> processedEntryIds s"
  shows "synced (visit fetch c s)"
proof (cases rule: fetch_cases[of fetch c])
  case (rejected err)
  then show ?thesis using assms by (simp add: visit_rejected synced_def)
next
  case none
  then show ?thesis using assms by (simp add: visit_none synced_def)
next
  case (cut refs)
  then show ?thesis using assms by (simp add: visit_cut synced_def)
next
  case (some refs)
  have "synced (afterFetch c refs s)" by (simp add: synced_def)
  then have "synced (snd (processEntries (includes_Entry refs) (afterFetch c refs s)))"
    by (rule synced_processEntries)
  then show ?thesis using some assms
    by (auto simp: visit_resolved synced_def split: completion.splits)
qed

lemma bounded_visit:
  assumes ok: "queue_ok t" and q: "entriesToProcess t = c # rest"
    and cnt: "processed t = length (fetchLog t)"
    and b: "\<forall>x \<in> set (progressLog t). fst x \<le> snd x"
    and r: "renders fetch c"
  shows "processed (visit fetch c (t\<lparr>entriesToProcess := rest\<rparr>)) =
           length (fetchLog (visit fetch c (t\<lparr>entriesToProcess := rest\<rparr>))) \<and>
         (\<forall>x \<in> set (progressLog (visit fetch c (t\<lparr>entriesToProcess := rest\<rparr>))). fst x \<le> snd x)"
proof -
  let ?m = "t\<lparr>entriesToProcess := rest\<rparr>"
  have fresh: "c \<notin> processedEntryIds ?m" using queue_ok_head_fresh[OF ok q] by simp
  have tot: "total_count t = Suc (length (fetchLog t) + length rest)"
    using ok q by (simp add: queue_ok_def)
  show ?thesis
  proof (cases rule: fetch_cases[of fetch c])
    case (rejected err)
    then show ?thesis using fresh cnt b tot by (auto simp: visit_rejected)
  next
    case none
    then show ?thesis using fresh cnt b tot by (auto simp: visit_none)
  next
    case (cut refs)
    with r show ?thesis by (simp add: renders_def)
  next
    case (some refs)
    let ?p = "processEntries (includes_Entry refs) (afterFetch c refs ?m)"
    have "bounded_reports (afterFetch c refs ?m)"
      using cnt b tot by (auto simp: bounded_reports_def)
    then have bb: "bounded_reports (snd ?p)" by (rule bounded_reports_processEntries)
    have "fst ?p = Completed"
      using r some by (intro processEntries_completed) (simp add: renders_def)
    then have v: "visit fetch c ?m = snd ?p" using some fresh by (simp add: visit_resolved)
    show ?thesis unfolding v using bb cnt by (simp add: bounded_reports_def)
  qed
qed

lemma progress_ok_initial: "progress_ok fetch (initial root)"
proof -
  have "sorted_reports (initial root)" "entriesToProcess (initial root) \<noteq> []"
    "processed (initial root) = length (fetchLog (initial root))"
    "\<forall>x \<in> set (progressLog (initial root)). fst x \<le> snd x"
    by (simp_all add: sorted_reports_def initial_def)
  then show ?thesis unfolding progress_ok_def using queue_ok_initial by blast
qed

lemma progress_ok_visit:
  assumes inv: "progress_ok fetch t" and q: "entriesToProcess t = c # rest"
  shows "progress_ok fetch (visit fetch c (t\<lparr>entriesToProcess := rest\<rparr>))"
proof -
  let ?m = "t\<lparr>entriesToProcess := rest\<rparr>"
  let ?s = "visit fetch c ?m"
  from inv have ok: "queue_ok t" and so: "sorted_reports t"
    and cf: "(\<forall>u \<in> set (fetchLog t). renders fetch u) \<longrightarrow>
        processed t = length (fetchLog t) \<and> (\<forall>x \<in> set (progressLog t). fst x \<le> snd x)"
    by (simp_all add: progress_ok_def)
  have fresh: "c \<notin> processedEntryIds ?m" using queue_ok_head_fresh[OF ok q] by simp
  have fl: "fetchLog ?s = fetchLog t @ [c]" using visit_fetchLog[OF fresh, of fetch] by simp
  have som: "sorted_reports ?m" using so by (simp add: sorted_reports_def)
  have a: "queue_ok ?s" by (rule queue_ok_visit[OF ok q])
  have b: "sorted_reports ?s" by (rule sorted_reports_visit[OF som])
  have c: "entriesToProcess ?s \<noteq> [] \<or> synced ?s" using synced_visit[OF fresh] by blast
  have d: "(\<forall>u \<in> set (fetchLog ?s). renders fetch u) \<longrightarrow>
        processed ?s = length (fetchLog ?s) \<and> (\<forall>x \<in> set (progressLog ?s). fst x \<le> snd x)"
  proof
    assume all: "\<forall>u \<in> set (fetchLog ?s). renders fetch u"
    then have r: "renders fetch c" and old: "\<forall>u \<in> set (fetchLog t). renders fetch u"
      unfolding fl by simp_all
    from cf old have cnt: "processed t = length (fetchLog t)"
      and bd: "\<forall>x \<in> set (progressLog t). fst x \<le> snd x" by blast+
    from bounded_visit[OF ok q cnt bd r]
    show "processed ?s = length (fetchLog ?s) \<and> (\<forall>x \<in> set (progressLog ?s). fst x \<le> snd x)" .
  qed
  show ?thesis unfolding progress_ok_def using a b c d by (intro conjI) assumption+
qed

lemma progress_ok_final:
  assumes "processQueue fetch (initial root) = Some r"
  shows "progress_ok fetch r \<and> entriesToProcess r = []"
  using processQueue_invariant[where I = "progress_ok fetch", OF assms progress_ok_initial]
    progress_ok_visit by blast

lemma cycleAB_finite: "finite (reachable cycleAB ''A'')"
  by (rule reachable_finite_list[where S = "[''A'', ''B'']"]; code_simp)

lemma cycleAB_run:
  "map_option (\<lambda>x. case x of Fulfilled r \<Rightarrow> (fetchLog r, progressLog r, processed r, total_count r)
                     | Escaped e \<Rightarrow> ([], [], 0, 0))
     (fetchReferencesIteratively cycleAB ''A'') =
   Some ([''A'', ''B''], [(1, 1), (1, 2), (2, 2)], 2, 2)"
  by code_simp

lemma middleFails_finite: "finite (reachable middleFails ''A'')"
  by (rule reachable_finite_list[where S = "[''A'', ''B'', ''C'']"]; code_simp)

lemma middleFails_run:
  "map_option (\<lambda>x. case x of Fulfilled r \<Rightarrow> (fetchLog r, map err_id (errors r))
                     | Escaped e \<Rightarrow> ([], []))
     (fetchReferencesIteratively middleFails ''A'') =
   Some ([''A'', ''B'', ''C''], [''B''])"
  by code_simp

lemma blankFirst_run:
  "map_option (\<lambda>x. case x of Fulfilled r \<Rightarrow>
                       (fetchLog r, map entry_id (entries r), progressLog r, map err_id (errors r))
                     | Escaped e \<Rightarrow> ([], [], [], []))
     (fetchReferencesIteratively blankFirst ''A'') =
   Some ([''A''], [], [(1, 1), (2, 1)], [''A''])"
  by code_simp

lemma newlyQueued_complete:
  "list_all (\<lambda>e. debugEntry e = Completed) es \<Longrightarrow>
   entry_id ` {e \<in> set es. contentType e \<notin> set EXCLUDED_CONTENT_TYPES} \<subseteq> Q \<union> set (newlyQueued es Q)"
proof (induction es arbitrary: Q)
  case (Cons e es)
  from Cons.prems have r: "list_all (\<lambda>e. debugEntry e = Completed) es" and c: "debugEntry e = Completed"
    by simp_all
  show ?case using Cons.IH[OF r, of Q] Cons.IH[OF r, of "insert (entry_id e) Q"] c
    by auto
qed simp

lemma discovered_complete:
  "renders fetch c \<Longrightarrow> set (successors fetch c) \<subseteq> Q \<union> set (discovered fetch c Q)"
proof (cases rule: fetch_cases[of fetch c])
  case (some refs)
  assume "renders fetch c"
  with some have "list_all (\<lambda>e. debugEntry e = Completed) (includes_Entry refs)"
    by (simp add: renders_def)
  from newlyQueued_complete[OF this, of Q] some show ?thesis
    by (auto simp: successors_simps discovered_simps)
qed (simp_all add: successors_simps renders_def)

lemma closed_under_visit:
  assumes inv: "closed_under fetch s" and fresh: "c \<notin> processedEntryIds s"
  shows "closed_under fetch (visit fetch c s)"
  unfolding closed_under_def
proof (intro ballI impI)
  fix u
  assume u: "u \<in> set (fetchLog (visit fetch c s))" and r: "renders fetch u"
  have qd: "entriesQueued (visit fetch c s) =
      entriesQueued s \<union> set (discovered fetch c (entriesQueued s))"
    by (rule visit_queued[OF fresh])
  from u have "u \<in> set (fetchLog s) \<or> u = c" using visit_fetchLog[OF fresh, of fetch] by auto
  then show "set (successors fetch u) \<subseteq> entriesQueued (visit fetch c s)"
  proof
    assume "u \<in> set (fetchLog s)"
    with inv r have "set (successors fetch u) \<subseteq> entriesQueued s"
      unfolding closed_under_def by blast
    then show ?thesis unfolding qd by blast
  next
    assume "u = c"
    with r discovered_complete[of fetch c "entriesQueued s"] show ?thesis unfolding qd by simp
  qed
qed

lemma queued_from_visit:
  assumes inv: "queued_from fetch root s" and fresh: "c \<notin> processedEntryIds s"
  shows "queued_from fetch root (visit fetch c s)"
  unfolding queued_from_def
proof (intro ballI)
  fix x
  assume x: "x \<in> entriesQueued (visit fetch c s)"
  have fl: "fetchLog (visit fetch c s) = fetchLog s @ [c]" by (rule visit_fetchLog[OF fresh])
  from x have "x \<in> entriesQueued s \<or> x \<in> set (discovered fetch c (entriesQueued s))"
    using visit_queued[OF fresh, of fetch] by auto
  then show "x = root \<or> (\<exists>u \<in> set (fetchLog (visit fetch c s)). x \<in> set (successors fetch u))"
  proof
    assume "x \<in> entriesQueued s"
    with inv have "x = root \<or> (\<exists>u \<in> set (fetchLog s). x \<in> set (successors fetch u))"
      unfolding queued_from_def by blast
    then show ?thesis unfolding fl by auto
  next
    assume "x \<in> set (discovered fetch c (entriesQueued s))"
    with discovered_successors[of fetch c "entriesQueued s"]
    have "x \<in> set (successors fetch c)" by blast
    then show ?thesis unfolding fl by auto
  qed
qed

lemma processEntries_tracked_examined:
  "entry_id ` set (examined es) \<subseteq> trackedEntryIds (snd (processEntries es s))"
proof (induction es arbitrary: s)
  case (Cons e es)
  show ?case
  proof (cases "debugEntry e")
    case (Thrown err)
    then show ?thesis by (simp add: examined_def)
  next
    case Completed
    have "entry_id e \<in> trackedEntryIds (processEntry e s)" by simp
    with processEntries_tracked_mono[of "processEntry e s" es]
    have "entry_id e \<in> trackedEntryIds (snd (processEntries es (processEntry e s)))" by blast
    with Cons[of "processEntry e s"] Completed show ?thesis by (simp add: examined_def)
  qed
qed (simp add: examined_def)

lemma visit_tracked_mono: "trackedEntryIds s \<subseteq> trackedEntryIds (visit fetch c s)"
proof (cases "c \<in> processedEntryIds s")
  case True
  then show ?thesis by (simp add: visit_skip)
next
  case False
  show ?thesis
  proof (cases rule: fetch_cases[of fetch c])
    case (some refs)
    from processEntries_tracked_mono[of "afterFetch c refs s" "includes_Entry refs"]
    show ?thesis using some False by (simp add: visit_resolved split: completion.splits)
  qed (simp_all add: visit_rejected visit_none visit_cut False)
qed

lemma visit_tracked_new:
  assumes "c \<notin> processedEntryIds s" and "fetch c = Resolved (Some refs)"
    and "assetLoopCompletes refs"
  shows "entry_id ` set (examined (includes_Entry refs)) \<subseteq> trackedEntryIds (visit fetch c s)"
  using processEntries_tracked_examined[of "includes_Entry refs" "afterFetch c refs s"] assms
  by (simp add: visit_resolved split: completion.splits)

lemma listed_visit:
  assumes inv: "listed fetch s" and fresh: "c \<notin> processedEntryIds s"
  shows "listed fetch (visit fetch c s)"
  unfolding listed_def
proof (intro allI impI)
  fix u refs
  assume h: "u \<in> set (fetchLog (visit fetch c s)) \<and> fetch u = Resolved (Some refs) \<and>
             assetLoopCompletes refs"
  then have "u \<in> set (fetchLog s) \<or> u = c" using visit_fetchLog[OF fresh, of fetch] by auto
  then show "entry_id ` set (examined (includes_Entry refs)) \<subseteq> trackedEntryIds (visit fetch c s)"
  proof
    assume "u \<in> set (fetchLog s)"
    with inv h have "entry_id ` set (examined (includes_Entry refs)) \<subseteq> trackedEntryIds s"
      unfolding listed_def by blast
    with visit_tracked_mono[of s fetch c] show ?thesis by blast
  next
    assume "u = c"
    with h visit_tracked_new[OF fresh, of fetch refs] show ?thesis by simp
  qed
qed

lemma visit_entries_source:
  assumes "c \<notin> processedEntryIds s"
  shows "set (entries (visit fetch c s)) \<subseteq>
         set (entries s) \<union> {e. \<exists>refs. fetch c = Resolved (Some refs) \<and> e \<in> set (includes_Entry refs)}"
proof (cases rule: fetch_cases[of fetch c])
  case (some refs)
  from processEntries_entries_source[of "includes_Entry refs" "afterFetch c refs s"]
  show ?thesis using some assms by (auto simp: visit_resolved split: completion.splits)
qed (simp_all add: visit_rejected visit_none visit_cut assms)

lemma afterFetch_assets_source:
  "set (assets (afterFetch c refs s)) \<subseteq> set (assets s) \<union> set (includes_Asset refs)"
proof -
  let ?s3 = "(setProgress (s\<lparr>processedEntryIds := insert c (processedEntryIds s),
                        fetchLog := fetchLog s @ [c], processed := processed s + 1\<rparr>))
             \<lparr>errors := errors s @ ref_errors refs\<rparr>"
  have "afterFetch c refs s = snd (processAssets (includes_Asset refs) ?s3)"
    by (simp add: afterFetch_def Let_def)
  moreover have "assets ?s3 = assets s" by simp
  ultimately show ?thesis using processAssets_source[of "includes_Asset refs" ?s3] by simp
qed

lemma visit_assets_source:
  assumes "c \<notin> processedEntryIds s"
  shows "set (assets (visit fetch c s)) \<subseteq>
         set (assets s) \<union> {a. \<exists>refs. fetch c = Resolved (Some refs) \<and> a \<in> set (includes_Asset refs)}"
proof (cases rule: fetch_cases[of fetch c])
  case (some refs)
  from afterFetch_assets_source[of c refs s]
  show ?thesis using some assms by (auto simp: visit_resolved split: completion.splits)
next
  case (cut refs)
  from afterFetch_assets_source[of c refs s]
  show ?thesis using cut assms by (auto simp: visit_cut)
qed (simp_all add: visit_rejected visit_none assms)

lemma sourced_visit:
  assumes inv: "sourced fetch s" and fresh: "c \<notin> processedEntryIds s"
  shows "sourced fetch (visit fetch c s)"
proof -
  have fl: "fetchLog (visit fetch c s) = fetchLog s @ [c]" by (rule visit_fetchLog[OF fresh])
  have e: "\<forall>e \<in> set (entries (visit fetch c s)). \<exists>u refs. u \<in> set (fetchLog (visit fetch c s)) \<and>
             fetch u = Resolved (Some refs) \<and> e \<in> set (includes_Entry refs)"
  proof
    fix e assume "e \<in> set (entries (visit fetch c s))"
    with visit_entries_source[OF fresh, of fetch]
    have "e \<in> set (entries s) \<or> (\<exists>refs. fetch c = Resolved (Some refs) \<and> e \<in> set (includes_Entry refs))"
      by blast
    then show "\<exists>u refs. u \<in> set (fetchLog (visit fetch c s)) \<and>
             fetch u = Resolved (Some refs) \<and> e \<in> set (includes_Entry refs)"
    proof
      assume "e \<in> set (entries s)"
      with inv obtain u refs where "u \<in> set (fetchLog s)" "fetch u = Resolved (Some refs)"
        "e \<in> set (includes_Entry refs)" unfolding sourced_def by blast
      then show ?thesis unfolding fl by auto
    next
      assume "\<exists>refs. fetch c = Resolved (Some refs) \<and> e \<in> set (includes_Entry refs)"
      then show ?thesis unfolding fl by auto
    qed
  qed
  have a: "\<forall>a \<in> set (assets (visit fetch c s)). \<exists>u refs. u \<in> set (fetchLog (visit fetch c s)) \<and>
             fetch u = Resolved (Some refs) \<and> a \<in> set (includes_Asset refs)"
  proof
    fix a assume "a \<in> set (assets (visit fetch c s))"
    with visit_assets_source[OF fresh, of fetch]
    have "a \<in> set (assets s) \<or> (\<exists>refs. fetch c = Resolved (Some refs) \<and> a \<in> set (includes_Asset refs))"
      by blast
    then show "\<exists>u refs. u \<in> set (fetchLog (visit fetch c s)) \<and>
             fetch u = Resolved (Some refs) \<and> a \<in> set (includes_Asset refs)"
    proof
      assume "a \<in> set (assets s)"
      with inv obtain u refs where "u \<in> set (fetchLog s)" "fetch u = Resolved (Some refs)"
        "a \<in> set (includes_Asset refs)" unfolding sourced_def by blast
      then show ?thesis unfolding fl by auto
    next
      assume "\<exists>refs. fetch c = Resolved (Some refs) \<and> a \<in> set (includes_Asset refs)"
      then show ?thesis unfolding fl by auto
    qed
  qed
  show ?thesis unfolding sourced_def using e a by blast
qed

lemma traversed_initial: "traversed fetch root (initial root)"
proof -
  have "root \<in> entriesQueued (initial root)" "entriesQueued (initial root) \<subseteq> reachable fetch root"
    "closed_under fetch (initial root)" "queued_from fetch root (initial root)"
    "listed fetch (initial root)" "sourced fetch (initial root)"
    by (simp_all add: initial_def reachable.root closed_under_def queued_from_def listed_def
          sourced_def)
  then show ?thesis unfolding traversed_def using queue_ok_initial universe_ok_initial by blast
qed

lemma traversed_visit:
  assumes inv: "traversed fetch root t" and q: "entriesToProcess t = c # rest"
  shows "traversed fetch root (visit fetch c (t\<lparr>entriesToProcess := rest\<rparr>))"
proof -
  let ?m = "t\<lparr>entriesToProcess := rest\<rparr>"
  let ?s = "visit fetch c ?m"
  from inv have ok: "queue_ok t" and u: "universe_ok t" and r: "root \<in> entriesQueued t"
    and w: "entriesQueued t \<subseteq> reachable fetch root" and cl: "closed_under fetch t"
    and qf: "queued_from fetch root t" and li: "listed fetch t" and so: "sourced fetch t"
    by (simp_all add: traversed_def)
  have fresh: "c \<notin> processedEntryIds ?m" using queue_ok_head_fresh[OF ok q] by simp
  have cq: "c \<in> entriesQueued t" using ok q by (simp add: queue_ok_def)
  have qd: "entriesQueued ?s = entriesQueued t \<union> set (discovered fetch c (entriesQueued t))"
    using visit_queued[OF fresh, of fetch] by simp
  have um: "universe_ok ?m" using u by (simp add: universe_ok_def)
  have clm: "closed_under fetch ?m" using cl by (simp add: closed_under_def)
  have qfm: "queued_from fetch root ?m" using qf by (simp add: queued_from_def)
  have lim: "listed fetch ?m" using li by (simp add: listed_def)
  have som: "sourced fetch ?m" using so by (simp add: sourced_def)
  have a: "root \<in> entriesQueued ?s" unfolding qd using r by simp
  have "set (discovered fetch c (entriesQueued t)) \<subseteq> reachable fetch root"
    using discovered_successors[of fetch c "entriesQueued t"] cq w
    by (auto intro: reachable.step)
  then have b: "entriesQueued ?s \<subseteq> reachable fetch root" unfolding qd using w by simp
  show ?thesis unfolding traversed_def
    using queue_ok_visit[OF ok q] universe_ok_visit[OF um] a b closed_under_visit[OF clm fresh]
      queued_from_visit[OF qfm fresh] listed_visit[OF lim fresh] sourced_visit[OF som fresh]
    by (intro conjI) assumption+
qed

lemma traversed_final:
  assumes "processQueue fetch (initial root) = Some r"
  shows "traversed fetch root r \<and> entriesToProcess r = []"
  using processQueue_invariant[where I = "traversed fetch root", OF assms traversed_initial]
    traversed_visit by blast

lemma visits_reachable_once:
  assumes "finite (reachable fetch root)"
  shows "\<exists>r. fetchReferencesIteratively fetch root = Some (Fulfilled r) \<and>
           distinct (fetchLog r) \<and> root \<in> set (fetchLog r) \<and>
           set (fetchLog r) \<subseteq> reachable fetch root \<and>
           ((\<forall>u \<in> set (fetchLog r). renders fetch u) \<longrightarrow>
              set (fetchLog r) = reachable fetch root)"
proof -
  from fetchReferencesIteratively_returns[OF assms] obtain r
    where ret: "fetchReferencesIteratively fetch root = Some (Fulfilled r)"
      and run: "processQueue fetch (initial root) = Some r" by blast
  from traversed_final[OF run] have ok: "queue_ok r" and rt: "root \<in> entriesQueued r"
    and w: "entriesQueued r \<subseteq> reachable fetch root" and cl: "closed_under fetch r"
    and e: "entriesToProcess r = []"
    by (simp_all add: traversed_def)
  have d: "distinct (fetchLog r)" and q: "set (fetchLog r) = entriesQueued r"
    using ok e by (simp_all add: queue_ok_def)
  have full: "(\<forall>u \<in> set (fetchLog r). renders fetch u) \<longrightarrow> set (fetchLog r) = reachable fetch root"
  proof
    assume all: "\<forall>u \<in> set (fetchLog r). renders fetch u"
    have "reachable fetch root \<subseteq> set (fetchLog r)"
    proof
      fix x assume "x \<in> reachable fetch root"
      then show "x \<in> set (fetchLog r)"
      proof (induction rule: reachable.induct)
        case root
        then show ?case using rt q by simp
      next
        case (step u v)
        with all cl have "set (successors fetch u) \<subseteq> entriesQueued r"
          unfolding closed_under_def by blast
        with step q show ?case by blast
      qed
    qed
    with w q show "set (fetchLog r) = reachable fetch root" by blast
  qed
  show ?thesis using ret d rt w full unfolding q[symmetric]
    by (intro exI[where x = r] conjI) assumption+
qed

lemma excludedLeaf_finite: "finite (reachable excludedLeaf ''A'')"
  by (rule reachable_finite_list[where S = "[''A'', ''B'']"]; code_simp)

lemma excludedLeaf_run:
  "map_option (\<lambda>x. case x of Fulfilled r \<Rightarrow>
                       (fetchLog r, map entry_id (entries r), map asset_id (assets r))
                     | Escaped e \<Rightarrow> ([], [], []))
     (fetchReferencesIteratively excludedLeaf ''A'') =
   Some ([''A'', ''B''], [''P'', ''B''], [])"
  by code_simp

lemma pageAfterBlank_finite: "finite (reachable pageAfterBlank ''A'')"
  by (rule reachable_finite_list[where S = "[''A'', ''E'']"]; code_simp)

lemma pageAfterBlank_run:
  "map_option (\<lambda>x. case x of Fulfilled r \<Rightarrow>
                       (fetchLog r, map entry_id (entries r), map err_id (errors r))
                     | Escaped e \<Rightarrow> ([], [], []))
     (fetchReferencesIteratively pageAfterBlank ''A'') =
   Some ([''A''], [''P''], [''A''])"
  by code_simp

lemma sharedAfterUntitled_finite: "finite (reachable sharedAfterUntitled ''R'')"
  by (rule reachable_finite_list[where S = "[''R'', ''E1'', ''E2'', ''E3'']"]; code_simp)

lemma sharedAfterUntitled_run:
  "map_option (\<lambda>x. case x of Fulfilled r \<Rightarrow>
                       (fetchLog r, map asset_id (assets r), map err_id (errors r), progressLog r)
                     | Escaped e \<Rightarrow> ([], [], [], []))
     (fetchReferencesIteratively sharedAfterUntitled ''R'') =
   Some ([''R'', ''E1'', ''E2'', ''E3''], [], [''E1'', ''E2'', ''E3''],
         [(1, 1), (1, 2), (1, 3), (1, 4), (2, 4), (3, 4), (4, 4), (5, 4), (6, 4), (7, 4)])"
  by code_simp

lemma unreachableRoot_run:
  "map_option (\<lambda>x. case x of Fulfilled r \<Rightarrow> (fetchLog r, errors r) | Escaped e \<Rightarrow> ([], []))
     (fetchReferencesIteratively unreachableRoot ''A'') =
   Some ([''A''], [\<lparr>err_id = ''A'', err_type = ''Entry'',
                    err_message = ''Error fetching references: Forbidden''\<rparr>])"
  by code_simp

section \<open>The publish orchestrator: items, dependencies, root\<close>

lemma setStatus_simps [simp]:
  "pub_published (setStatus n t p) = pub_published p"
  "pub_errors (setStatus n t p) = pub_errors p"
  "pub_errored (setStatus n t p) = pub_errored p"
  "pub_scheduledActionIds (setStatus n t p) = pub_scheduledActionIds p"
  "pub_calls (setStatus n t p) = pub_calls p"
  by (simp_all add: setStatus_def)

lemma issued_setStatus [simp]: "issued (setStatus n t p) = issued p"
  by (simp add: issued_def)

lemma publishItem_issued:
  "issued (publishItem client n t ty x p) = issued p @ itemCalls client t Dependency ty x"
  by (auto simp: publishItem_def schedulePublish_def publishImmediately_def await_def
        itemCalls_def issued_def truthy_def Let_def
      split: option.splits reply.splits entityType.splits)

lemma publishItem_counts:
  "pub_published (publishItem client n t ty x p) + pub_errors (publishItem client n t ty x p) =
   pub_published p + pub_errors p + 1"
  by (auto simp: publishItem_def schedulePublish_def publishImmediately_def await_def
        truthy_def Let_def
      split: option.splits reply.splits entityType.splits)

lemma publishItem_errors_mono:
  "pub_errors p \<le> pub_errors (publishItem client n t ty x p)"
  by (auto simp: publishItem_def schedulePublish_def publishImmediately_def await_def
        truthy_def Let_def
      split: option.splits reply.splits entityType.splits)

lemma publishItem_errored:
  "pub_errors p = length (pub_errored p) \<Longrightarrow>
   pub_errors (publishItem client n t ty x p) = length (pub_errored (publishItem client n t ty x p))"
  by (auto simp: publishItem_def schedulePublish_def publishImmediately_def await_def
        truthy_def Let_def
      split: option.splits reply.splits entityType.splits)

lemma publishItem_rejects:
  "(\<forall>e \<in> set (pub_calls p). resolved (snd (snd e))) \<or> pub_errors p > 0 \<Longrightarrow>
   (\<forall>e \<in> set (pub_calls (publishItem client n t ty x p)). resolved (snd (snd e))) \<or>
   pub_errors (publishItem client n t ty x p) > 0"
  by (auto simp: publishItem_def schedulePublish_def publishImmediately_def await_def
        truthy_def Let_def resolved_def
      split: option.splits reply.splits entityType.splits)

lemma publishItem_ids:
  "truthy t \<Longrightarrow> pub_scheduledActionIds p = recordedIds (pub_calls p) \<Longrightarrow>
   pub_scheduledActionIds (publishItem client n t ty x p) =
   recordedIds (pub_calls (publishItem client n t ty x p))"
  by (auto simp: publishItem_def schedulePublish_def publishImmediately_def await_def
        truthy_def Let_def recordedIds_def
      split: option.splits reply.splits entityType.splits)

lemma publishItems_issued:
  "issued (publishItems client n t ty xs p) =
   issued p @ concat (map (itemCalls client t Dependency ty) xs)"
  by (induction xs arbitrary: p) (simp_all add: publishItem_issued)

lemma publishItems_counts:
  "pub_published (publishItems client n t ty xs p) + pub_errors (publishItems client n t ty xs p) =
   pub_published p + pub_errors p + length xs"
proof (induction xs arbitrary: p)
  case (Cons x xs)
  show ?case using Cons[of "publishItem client n t ty x p"] publishItem_counts[of client n t ty x p]
    by simp
qed simp

lemma publishItems_errored:
  "pub_errors p = length (pub_errored p) \<Longrightarrow>
   pub_errors (publishItems client n t ty xs p) = length (pub_errored (publishItems client n t ty xs p))"
  by (induction xs arbitrary: p) (simp_all add: publishItem_errored)

lemma publishItems_rejects:
  "(\<forall>e \<in> set (pub_calls p). resolved (snd (snd e))) \<or> pub_errors p > 0 \<Longrightarrow>
   (\<forall>e \<in> set (pub_calls (publishItems client n t ty xs p)). resolved (snd (snd e))) \<or>
   pub_errors (publishItems client n t ty xs p) > 0"
proof (induction xs arbitrary: p)
  case (Cons x xs)
  from Cons.IH[OF publishItem_rejects[OF Cons.prems]] show ?case by simp
qed simp

lemma publishItems_ids:
  "truthy t \<Longrightarrow> pub_scheduledActionIds p = recordedIds (pub_calls p) \<Longrightarrow>
   pub_scheduledActionIds (publishItems client n t ty xs p) =
   recordedIds (pub_calls (publishItems client n t ty xs p))"
proof (induction xs arbitrary: p)
  case (Cons x xs)
  from Cons.IH[OF Cons.prems(1) publishItem_ids[OF Cons.prems]] show ?case by simp
qed simp

lemma publishDependencies_issued:
  "issued (publishDependencies client information t) =
   concat (map (itemCalls client t Dependency Asset)
             (map asset_sys (draftAssets information @ updatedAssets information))) @
   concat (map (itemCalls client t Dependency Entry)
             (map entry_sys (draftEntries information @ updatedEntries information)))"
  by (simp add: publishDependencies_def Let_def publishItems_issued)
     (simp add: issued_def)

lemma publishDependencies_counts:
  "pub_published (publishDependencies client information t) +
   pub_errors (publishDependencies client information t) = total_of information"
  by (simp add: publishDependencies_def Let_def publishItems_counts total_of_def)

lemma publishDependencies_errored:
  "pub_errors (publishDependencies client information t) =
   length (pub_errored (publishDependencies client information t))"
  unfolding publishDependencies_def Let_def
  by (intro publishItems_errored) simp

lemma publishDependencies_rejects:
  "(\<forall>e \<in> set (pub_calls (publishDependencies client information t)). resolved (snd (snd e))) \<or>
   pub_errors (publishDependencies client information t) > 0"
  unfolding publishDependencies_def Let_def
  by (intro publishItems_rejects) simp

lemma publishDependencies_ids:
  "truthy t \<Longrightarrow>
   pub_scheduledActionIds (publishDependencies client information t) =
   recordedIds (pub_calls (publishDependencies client information t))"
  unfolding publishDependencies_def Let_def
  by (intro publishItems_ids) (simp_all add: recordedIds_def)

lemma publishItem_origin:
  "\<forall>e \<in> set (pub_calls p). fst e = Dependency \<Longrightarrow>
   \<forall>e \<in> set (pub_calls (publishItem client n t ty x p)). fst e = Dependency"
  by (auto simp: publishItem_def schedulePublish_def publishImmediately_def await_def
        truthy_def Let_def
      split: option.splits reply.splits entityType.splits)

lemma publishItems_origin:
  "\<forall>e \<in> set (pub_calls p). fst e = Dependency \<Longrightarrow>
   \<forall>e \<in> set (pub_calls (publishItems client n t ty xs p)). fst e = Dependency"
proof (induction xs arbitrary: p)
  case (Cons x xs)
  from Cons.IH[OF publishItem_origin[OF Cons.prems]] show ?case by simp
qed simp

lemma publishDependencies_origin:
  "\<forall>e \<in> set (pub_calls (publishDependencies client information t)). fst e = Dependency"
  unfolding publishDependencies_def Let_def
  by (intro publishItems_origin) simp

lemma publishRoot_skipped: "pub_errors p > 0 \<Longrightarrow> publishRoot client t p = p"
  by (simp add: publishRoot_def)

lemma publishRoot_frame [simp]:
  "pub_published (publishRoot client t p) = pub_published p"
  "pub_errored (publishRoot client t p) = pub_errored p"
  by (auto simp: publishRoot_def schedulePublish_def await_def truthy_def Let_def
      split: option.splits reply.splits)

lemma publishRoot_issued:
  "issued (publishRoot client t p) =
   issued p @ (if pub_errors p = 0 then rootCalls client t else [])"
  by (auto simp: publishRoot_def schedulePublish_def await_def truthy_def Let_def
        rootCalls_def issued_def
      split: option.splits reply.splits)

lemma publishRoot_done:
  "pub_errors p = 0 \<Longrightarrow>
   pub_errors (publishRoot client t p) = 0 \<longleftrightarrow>
   (\<exists>c i. pub_calls (publishRoot client t p) = pub_calls p @ [(Root, c, Resolve i)])"
  by (auto simp: publishRoot_def schedulePublish_def await_def truthy_def Let_def
      split: option.splits reply.splits)

lemma publishRoot_ids:
  "truthy t \<Longrightarrow> pub_scheduledActionIds p = recordedIds (pub_calls p) \<Longrightarrow>
   pub_scheduledActionIds (publishRoot client t p) = recordedIds (pub_calls (publishRoot client t p))"
  by (auto simp: publishRoot_def schedulePublish_def await_def truthy_def Let_def recordedIds_def
      split: option.splits reply.splits)

lemma publishRoot_calls:
  "\<exists>R. pub_calls (publishRoot client t p) = pub_calls p @ R \<and> length R \<le> 1 \<and>
       (\<forall>e \<in> set R. fst e = Root) \<and> (pub_errors p > 0 \<longrightarrow> R = [])"
  by (auto simp: publishRoot_def schedulePublish_def await_def truthy_def Let_def
      split: option.splits reply.splits)

lemma publishRoot_errors_mono: "pub_errors p \<le> pub_errors (publishRoot client t p)"
  by (auto simp: publishRoot_def schedulePublish_def await_def truthy_def Let_def
      split: option.splits reply.splits)

lemma doPublish_snd:
  "snd (doPublish client information t) =
   publishRoot client t (publishDependencies client information t)"
  by (simp add: doPublish_def Let_def)

lemma doPublish_fst:
  "fst (doPublish client information t) \<longleftrightarrow>
   pub_errors (publishRoot client t (publishDependencies client information t)) = 0"
  by (simp add: doPublish_def Let_def)

lemma failed_dependencies_stop:
  assumes "pub_errors (publishDependencies client information t) > 0"
  shows "\<not> fst (doPublish client information t) \<and>
         (\<forall>e \<in> set (pub_calls (snd (doPublish client information t))). fst e \<noteq> Root)"
  using assms publishDependencies_origin[of client information t]
  by (simp add: doPublish_fst doPublish_snd publishRoot_skipped)

lemma publishItem_scheduled:
  "truthy t \<Longrightarrow> \<forall>e \<in> set (pub_calls p). \<not> immediate (fst (snd e)) \<Longrightarrow>
   \<forall>e \<in> set (pub_calls (publishItem client n t ty x p)). \<not> immediate (fst (snd e))"
  by (auto simp: publishItem_def schedulePublish_def await_def truthy_def Let_def immediate_def
      split: option.splits reply.splits)

lemma publishItems_scheduled:
  "truthy t \<Longrightarrow> \<forall>e \<in> set (pub_calls p). \<not> immediate (fst (snd e)) \<Longrightarrow>
   \<forall>e \<in> set (pub_calls (publishItems client n t ty xs p)). \<not> immediate (fst (snd e))"
proof (induction xs arbitrary: p)
  case (Cons x xs)
  from Cons.IH[OF Cons.prems(1) publishItem_scheduled[OF Cons.prems]] show ?case by simp
qed simp

lemma publishDependencies_scheduled:
  "truthy t \<Longrightarrow>
   \<forall>e \<in> set (pub_calls (publishDependencies client information t)). \<not> immediate (fst (snd e))"
  unfolding publishDependencies_def Let_def
  by (intro publishItems_scheduled) simp_all

lemma publishRoot_scheduled:
  "truthy t \<Longrightarrow> \<forall>e \<in> set (pub_calls p). \<not> immediate (fst (snd e)) \<Longrightarrow>
   \<forall>e \<in> set (pub_calls (publishRoot client t p)). \<not> immediate (fst (snd e))"
  by (auto simp: publishRoot_def schedulePublish_def await_def truthy_def Let_def immediate_def
      split: option.splits reply.splits)

lemma itemCalls_scheduled:
  "ts \<noteq> [] \<Longrightarrow> toISOString client ts = Some dt \<Longrightarrow>
   itemCalls client (Some ts) org ty x = [scheduleCall org ty dt x]"
  by (simp add: itemCalls_def scheduleCall_def)

lemma rootCalls_scheduled:
  "ts \<noteq> [] \<Longrightarrow> toISOString client ts = Some dt \<Longrightarrow>
   rootCalls client (Some ts) = [scheduleCall Root Entry dt (getSys client)]"
  by (simp add: rootCalls_def scheduleCall_def)

lemma concat_singletons: "concat (map (\<lambda>x. [f x]) xs) = map f xs"
  by (induction xs) simp_all

lemma created_reply:
  "createsCarryIds client \<Longrightarrow> cma client h (ScheduleCreate sp env ty i dt) = Resolve r \<Longrightarrow> truthy r"
  unfolding createsCarryIds_def by blast

lemma publishItem_carry:
  assumes ts: "ts \<noteq> []" and c: "createsCarryIds client"
    and inv: "\<forall>e \<in> set (pub_calls p). \<forall>r. snd (snd e) = Resolve r \<longrightarrow> truthy r"
  shows "\<forall>e \<in> set (pub_calls (publishItem client n (Some ts) ty x p)).
           \<forall>r. snd (snd e) = Resolve r \<longrightarrow> truthy r"
proof -
  have t: "truthy (Some ts)" using ts by (simp add: truthy_def)
  show ?thesis using ts t inv created_reply[OF c]
    by (auto simp: publishItem_def schedulePublish_def await_def Let_def
        split: option.splits reply.splits)
qed

lemma publishItems_carry:
  "ts \<noteq> [] \<Longrightarrow> createsCarryIds client \<Longrightarrow>
   \<forall>e \<in> set (pub_calls p). \<forall>r. snd (snd e) = Resolve r \<longrightarrow> truthy r \<Longrightarrow>
   \<forall>e \<in> set (pub_calls (publishItems client n (Some ts) ty xs p)).
     \<forall>r. snd (snd e) = Resolve r \<longrightarrow> truthy r"
proof (induction xs arbitrary: p)
  case (Cons x xs)
  from Cons.IH[OF Cons.prems(1,2) publishItem_carry[OF Cons.prems]] show ?case by simp
qed simp

lemma publishDependencies_carry:
  "ts \<noteq> [] \<Longrightarrow> createsCarryIds client \<Longrightarrow>
   \<forall>e \<in> set (pub_calls (publishDependencies client information (Some ts))).
     \<forall>r. snd (snd e) = Resolve r \<longrightarrow> truthy r"
  unfolding publishDependencies_def Let_def
  by (intro publishItems_carry) simp_all

lemma publishRoot_carry:
  assumes ts: "ts \<noteq> []" and c: "createsCarryIds client"
    and inv: "\<forall>e \<in> set (pub_calls p). \<forall>r. snd (snd e) = Resolve r \<longrightarrow> truthy r"
  shows "\<forall>e \<in> set (pub_calls (publishRoot client (Some ts) p)).
           \<forall>r. snd (snd e) = Resolve r \<longrightarrow> truthy r"
proof -
  have t: "truthy (Some ts)" using ts by (simp add: truthy_def)
  show ?thesis using ts t inv created_reply[OF c]
    by (auto simp: publishRoot_def schedulePublish_def await_def Let_def
        split: option.splits reply.splits)
qed

lemma recordedIds_replies:
  "\<forall>e \<in> set log. \<forall>r. snd (snd e) = Resolve r \<longrightarrow> truthy r \<Longrightarrow>
   map (\<lambda>e. snd (snd e)) (filter (\<lambda>e. resolved (snd (snd e))) log) =
   map (\<lambda>i. Resolve (Some i)) (recordedIds log)"
  by (induction log)
     (auto simp: recordedIds_def resolved_def truthy_def split: reply.splits option.splits)

lemma publishItem_succeeded:
  "pub_published p =
     length (filter (\<lambda>e. fst e = Dependency \<and> resolved (snd (snd e))) (pub_calls p)) \<Longrightarrow>
   pub_published (publishItem client n t ty x p) =
     length (filter (\<lambda>e. fst e = Dependency \<and> resolved (snd (snd e)))
               (pub_calls (publishItem client n t ty x p)))"
  by (auto simp: publishItem_def schedulePublish_def publishImmediately_def await_def
        truthy_def Let_def resolved_def
      split: option.splits reply.splits entityType.splits)

lemma publishItems_succeeded:
  "pub_published p =
     length (filter (\<lambda>e. fst e = Dependency \<and> resolved (snd (snd e))) (pub_calls p)) \<Longrightarrow>
   pub_published (publishItems client n t ty xs p) =
     length (filter (\<lambda>e. fst e = Dependency \<and> resolved (snd (snd e)))
               (pub_calls (publishItems client n t ty xs p)))"
proof (induction xs arbitrary: p)
  case (Cons x xs)
  from Cons.IH[OF publishItem_succeeded[OF Cons.prems]] show ?case by simp
qed simp

lemma publishDependencies_succeeded:
  "pub_published (publishDependencies client information t) =
     length (filter (\<lambda>e. fst e = Dependency \<and> resolved (snd (snd e)))
               (pub_calls (publishDependencies client information t)))"
  unfolding publishDependencies_def Let_def
  by (intro publishItems_succeeded) simp

lemma publishRoot_succeeded:
  "pub_published p =
     length (filter (\<lambda>e. fst e = Dependency \<and> resolved (snd (snd e))) (pub_calls p)) \<Longrightarrow>
   pub_published (publishRoot client t p) =
     length (filter (\<lambda>e. fst e = Dependency \<and> resolved (snd (snd e)))
               (pub_calls (publishRoot client t p)))"
  by (auto simp: publishRoot_def schedulePublish_def await_def truthy_def Let_def
      split: option.splits reply.splits)

section \<open>The claims about the reference collector\<close>

subsection \<open>Claim C1: termination on cycles, each id visited once\<close>

text \<open>
  C1 says that every entry id reachable from the root is fetched exactly once. The run
  below is a graph with the cycle \<open>A\<close>, \<open>B\<close>, \<open>A\<close> in which the response for \<open>A\<close> lists an
  entry without fields before it lists \<open>B\<close>. Evaluating the argument of the \<open>debug\<close>
  call for the entry without fields throws, the \<open>catch\<close> block takes over, and the rest
  of the response is never looked at: \<open>B\<close> is a successor of \<open>A\<close> and is never fetched,
  the error is filed as a fetch error of \<open>A\<close>, and \<open>processed\<close> is counted twice.
  (Lemma \<open>visits_reachable_once\<close> above is the claim where no listed asset or entry
  makes the loop body throw.)
\<close>

theorem blank_entry_cuts_traversal:
  "List.member (successors blankFirst ''A'') ''B'' \<and>
   (\<exists>r. fetchReferencesIteratively blankFirst ''A'' = Some (Fulfilled r) \<and>
        fetchLog r = [''A''] \<and> map entry_id (entries r) = [] \<and>
        progressLog r = [(1, 1), (2, 1)] \<and> map err_id (errors r) = [''A''])"
proof -
  have m: "List.member (successors blankFirst ''A'') ''B''" by code_simp
  have "finite (reachable blankFirst ''A'')"
    by (rule reachable_finite_list[where S = "[''A'', ''B'', ''E'']"]; code_simp)
  from fetchReferencesIteratively_returns[OF this] obtain r
    where ret: "fetchReferencesIteratively blankFirst ''A'' = Some (Fulfilled r)" by blast
  with blankFirst_run have "fetchLog r = [''A'']" "map entry_id (entries r) = []"
    "progressLog r = [(1, 1), (2, 1)]" "map err_id (errors r) = [''A'']" by simp_all
  with m ret show ?thesis by (intro conjI exI[where x = r]) assumption+
qed

subsection \<open>Claim C4: no duplicates in the reference universe\<close>

lemma universe_ids_distinct:
  assumes "finite (reachable fetch root)"
  shows "\<exists>r. fetchReferencesIteratively fetch root = Some (Fulfilled r) \<and>
           distinct (map entry_id (entries r)) \<and>
           distinct (map asset_id (assets r)) \<and>
           distinct (fetchLog r) \<and>
           set (fetchLog r) = entriesQueued r \<and>
           total_count r = card (entriesQueued r) \<and>
           (\<forall>u refs a. u \<in> set (fetchLog r) \<and> fetch u = Resolved (Some refs) \<and>
                       a \<in> set (examinedAssets (includes_Asset refs)) \<longrightarrow>
              length (filter (\<lambda>b. asset_id b = asset_id a) (assets r)) = 1)"
proof -
  from fetchReferencesIteratively_returns[OF assms] obtain r
    where ret: "fetchReferencesIteratively fetch root = Some (Fulfilled r)"
      and run: "processQueue fetch (initial root) = Some r" by blast
  from collected_final[OF run] have ok: "queue_ok r" and u: "universe_ok r"
    and a: "assets_seen fetch r" and e: "entriesToProcess r = []"
    by (simp_all add: collected_def)
  have d: "distinct (fetchLog r)" using ok e by (simp add: queue_ok_def)
  have q: "set (fetchLog r) = entriesQueued r" using ok e by (simp add: queue_ok_def)
  have "total_count r = length (fetchLog r)" using ok e by (simp add: queue_ok_def)
  then have t: "total_count r = card (entriesQueued r)"
    using distinct_card[OF d] q by simp
  have da: "distinct (map asset_id (assets r))" and de: "distinct (map entry_id (entries r))"
    and tr: "asset_id ` set (assets r) = trackedAssetIds r"
    using u by (simp_all add: universe_ok_def)
  have one: "\<forall>u refs a. u \<in> set (fetchLog r) \<and> fetch u = Resolved (Some refs) \<and>
                       a \<in> set (examinedAssets (includes_Asset refs)) \<longrightarrow>
              length (filter (\<lambda>b. asset_id b = asset_id a) (assets r)) = 1"
  proof (intro allI impI)
    fix u refs x
    assume h: "u \<in> set (fetchLog r) \<and> fetch u = Resolved (Some refs) \<and>
               x \<in> set (examinedAssets (includes_Asset refs))"
    with a have "asset_id x \<in> trackedAssetIds r" unfolding assets_seen_def by blast
    with tr have "asset_id x \<in> asset_id ` set (assets r)" by simp
    from distinct_map_count[OF da this] show "length (filter (\<lambda>b. asset_id b = asset_id x) (assets r)) = 1" .
  qed
  from ret de da d q t one show ?thesis by blast
qed

lemma sharedAssetGraph_finite: "finite (reachable sharedAssetGraph ''R'')"
  by (rule reachable_finite_list[where S = "[''R'', ''E1'', ''E2'', ''E3'']"]; code_simp)

lemma sharedAssetGraph_run:
  "map_option (\<lambda>x. case x of Fulfilled r \<Rightarrow> (map asset_id (assets r), fetchLog r) | Escaped e \<Rightarrow> ([], []))
     (fetchReferencesIteratively sharedAssetGraph ''R'') =
   Some ([''X''], [''R'', ''E1'', ''E2'', ''E3''])"
  by code_simp

text \<open>
  C4 says that an asset that several entries reference has exactly one copy in the
  universe. In the run below the root lists three entries, and the response of each of
  them lists an asset without a title and then the asset \<open>X\<close>. Evaluating the argument
  of the \<open>debug\<close> call for the asset without a title throws, the \<open>catch\<close> block takes
  over, and the rest of the response is never looked at: the three entries are fetched,
  each of them lists \<open>X\<close>, and the universe holds no copy of \<open>X\<close>; every throw is filed
  as a fetch error of the entry and \<open>processed\<close> ends at \<open>7\<close> with \<open>total\<close> at \<open>4\<close>.
  (Lemma \<open>universe_ids_distinct\<close> above is the part of the claim that holds on every
  graph: no id twice in the entry set, in the asset set, among the ids fetched and among
  the ids queued, and one copy of every asset that a loop comes to. Lemma
  \<open>sharedAssetGraph_run\<close> is the claim's example where every asset has a title.)
\<close>

theorem untitled_asset_hides_shared_asset:
  "list_all (\<lambda>u. sharedAfterUntitled u = response [untitledAsset ''U'', assetOf ''X''] [])
     [''E1'', ''E2'', ''E3''] \<and>
   (\<exists>r. fetchReferencesIteratively sharedAfterUntitled ''R'' = Some (Fulfilled r) \<and>
        fetchLog r = [''R'', ''E1'', ''E2'', ''E3''] \<and>
        map asset_id (assets r) = [] \<and>
        length (filter (\<lambda>b. asset_id b = ''X'') (assets r)) = 0 \<and>
        map err_id (errors r) = [''E1'', ''E2'', ''E3''] \<and>
        processed r = 7 \<and> total_count r = 4)"
proof -
  have l: "list_all (\<lambda>u. sharedAfterUntitled u = response [untitledAsset ''U'', assetOf ''X''] [])
     [''E1'', ''E2'', ''E3'']"
    by (simp add: sharedAfterUntitled_def)
  from fetchReferencesIteratively_returns[OF sharedAfterUntitled_finite] obtain r
    where ret: "fetchReferencesIteratively sharedAfterUntitled ''R'' = Some (Fulfilled r)"
      and run: "processQueue sharedAfterUntitled (initial ''R'') = Some r" by blast
  with sharedAfterUntitled_run have fl: "fetchLog r = [''R'', ''E1'', ''E2'', ''E3'']"
    and as: "map asset_id (assets r) = []"
    and er: "map err_id (errors r) = [''E1'', ''E2'', ''E3'']"
    and pl: "progressLog r =
      [(1, 1), (1, 2), (1, 3), (1, 4), (2, 4), (3, 4), (4, 4), (5, 4), (6, 4), (7, 4)]"
    by simp_all
  from as have none: "length (filter (\<lambda>b. asset_id b = ''X'') (assets r)) = 0" by simp
  from progress_ok_final[OF run] have "synced r" by (simp add: progress_ok_def)
  then have "(processed r, total_count r) = last (progressLog r)" by (simp add: synced_def)
  then have cnt: "processed r = 7" "total_count r = 4" unfolding pl by simp_all
  show ?thesis using l ret fl as none er cnt by (intro conjI exI[where x = r]) assumption+
qed

subsection \<open>Claim C5: excluded categories are listed, not expanded\<close>

lemma excluded_entries_not_expanded:
  assumes "finite (reachable fetch root)"
  shows "\<exists>r. fetchReferencesIteratively fetch root = Some (Fulfilled r) \<and>
           (\<forall>u refs e. u \<in> set (fetchLog r) \<and> fetch u = Resolved (Some refs) \<and>
                       assetLoopCompletes refs \<and>
                       e \<in> set (examined (includes_Entry refs)) \<longrightarrow>
              entry_id e \<in> entry_id ` set (entries r)) \<and>
           (\<forall>x \<in> set (fetchLog r). x = root \<or>
              (\<exists>u refs e. u \<in> set (fetchLog r) \<and> fetch u = Resolved (Some refs) \<and>
                          e \<in> set (includes_Entry refs) \<and> entry_id e = x \<and>
                          contentType e \<notin> set EXCLUDED_CONTENT_TYPES)) \<and>
           (\<forall>e \<in> set (entries r). \<exists>u refs. u \<in> set (fetchLog r) \<and>
              fetch u = Resolved (Some refs) \<and> e \<in> set (includes_Entry refs)) \<and>
           (\<forall>a \<in> set (assets r). \<exists>u refs. u \<in> set (fetchLog r) \<and>
              fetch u = Resolved (Some refs) \<and> a \<in> set (includes_Asset refs))"
proof -
  from fetchReferencesIteratively_returns[OF assms] obtain r
    where ret: "fetchReferencesIteratively fetch root = Some (Fulfilled r)"
      and run: "processQueue fetch (initial root) = Some r" by blast
  from traversed_final[OF run] have ok: "queue_ok r" and u: "universe_ok r"
    and qf: "queued_from fetch root r" and li: "listed fetch r" and so: "sourced fetch r"
    and e: "entriesToProcess r = []"
    by (simp_all add: traversed_def)
  have q: "set (fetchLog r) = entriesQueued r" using ok e by (simp add: queue_ok_def)
  have tr: "entry_id ` set (entries r) = trackedEntryIds r" using u by (simp add: universe_ok_def)
  have a: "\<forall>u refs e. u \<in> set (fetchLog r) \<and> fetch u = Resolved (Some refs) \<and>
                       assetLoopCompletes refs \<and>
                       e \<in> set (examined (includes_Entry refs)) \<longrightarrow>
              entry_id e \<in> entry_id ` set (entries r)"
    using li unfolding listed_def tr by blast
  have b: "\<forall>x \<in> set (fetchLog r). x = root \<or>
              (\<exists>u refs e. u \<in> set (fetchLog r) \<and> fetch u = Resolved (Some refs) \<and>
                          e \<in> set (includes_Entry refs) \<and> entry_id e = x \<and>
                          contentType e \<notin> set EXCLUDED_CONTENT_TYPES)"
  proof
    fix x assume "x \<in> set (fetchLog r)"
    with q qf have "x = root \<or> (\<exists>u \<in> set (fetchLog r). x \<in> set (successors fetch u))"
      unfolding queued_from_def by blast
    then show "x = root \<or>
              (\<exists>u refs e. u \<in> set (fetchLog r) \<and> fetch u = Resolved (Some refs) \<and>
                          e \<in> set (includes_Entry refs) \<and> entry_id e = x \<and>
                          contentType e \<notin> set EXCLUDED_CONTENT_TYPES)"
    proof
      assume "x = root" then show ?thesis by simp
    next
      assume "\<exists>u \<in> set (fetchLog r). x \<in> set (successors fetch u)"
      then obtain u where uf: "u \<in> set (fetchLog r)" and xs: "x \<in> set (successors fetch u)" by blast
      from xs obtain refs where f: "fetch u = Resolved (Some refs)"
        by (cases rule: fetch_cases[of fetch u]) (simp_all add: successors_simps)
      with xs obtain e where "e \<in> set (includes_Entry refs)" "entry_id e = x"
        "contentType e \<notin> set EXCLUDED_CONTENT_TYPES"
        by (auto simp: successors_simps)
      with uf f show ?thesis by blast
    qed
  qed
  from so have c: "\<forall>e \<in> set (entries r). \<exists>u refs. u \<in> set (fetchLog r) \<and>
              fetch u = Resolved (Some refs) \<and> e \<in> set (includes_Entry refs)"
    and d: "\<forall>a \<in> set (assets r). \<exists>u refs. u \<in> set (fetchLog r) \<and>
              fetch u = Resolved (Some refs) \<and> a \<in> set (includes_Asset refs)"
    unfolding sourced_def by blast+
  show ?thesis using ret a b c d by (intro exI[where x = r] conjI) assumption+
qed

lemma excluded_entry_never_fetched:
  assumes fin: "finite (reachable fetch root)" and x: "x \<noteq> root"
    and ex: "\<forall>u refs e. fetch u = Resolved (Some refs) \<and> e \<in> set (includes_Entry refs) \<and>
                        entry_id e = x \<longrightarrow> contentType e \<in> set EXCLUDED_CONTENT_TYPES"
  shows "\<exists>r. fetchReferencesIteratively fetch root = Some (Fulfilled r) \<and> x \<notin> set (fetchLog r)"
proof -
  from excluded_entries_not_expanded[OF fin] obtain r
    where ret: "fetchReferencesIteratively fetch root = Some (Fulfilled r)"
      and b: "\<forall>x \<in> set (fetchLog r). x = root \<or>
              (\<exists>u refs e. u \<in> set (fetchLog r) \<and> fetch u = Resolved (Some refs) \<and>
                          e \<in> set (includes_Entry refs) \<and> entry_id e = x \<and>
                          contentType e \<notin> set EXCLUDED_CONTENT_TYPES)"
    by blast
  have "x \<notin> set (fetchLog r)"
  proof
    assume "x \<in> set (fetchLog r)"
    with b x obtain u refs e where "fetch u = Resolved (Some refs)" "e \<in> set (includes_Entry refs)"
      "entry_id e = x" "contentType e \<notin> set EXCLUDED_CONTENT_TYPES" by blast
    with ex show False by blast
  qed
  with ret show ?thesis by blast
qed

text \<open>
  C5 says that every entry of an excluded category is in the entry set of the result. In
  the run below the response for the root lists a page \<open>P\<close>, an entry without fields and a
  second page \<open>Q\<close>. The loop takes \<open>P\<close> over; evaluating the argument of the \<open>debug\<close>
  call for the entry without fields throws, the \<open>catch\<close> block takes over, and the rest
  of the response is never looked at: \<open>Q\<close> is listed in the response of a fetched id with
  an excluded category and is not in the entry set. (Lemma
  \<open>excluded_entries_not_expanded\<close> above is the claim for the entries that the loop
  comes to, and lemma \<open>excluded_entry_never_fetched\<close> is its second half on every graph:
  an entry other than the root that is only ever listed with an excluded category is never
  fetched.)
\<close>

theorem excluded_entry_after_blank_is_dropped:
  "pageAfterBlank ''A'' =
     response [] [entryOf ''P'' ''page'', blankEntry ''E'' ''block'', entryOf ''Q'' ''page''] \<and>
   List.member EXCLUDED_CONTENT_TYPES (contentType (entryOf ''Q'' ''page'')) \<and>
   (\<exists>r. fetchReferencesIteratively pageAfterBlank ''A'' = Some (Fulfilled r) \<and>
        fetchLog r = [''A''] \<and>
        map entry_id (entries r) = [''P''] \<and>
        \<not> List.member (map entry_id (entries r)) ''Q'' \<and>
        map err_id (errors r) = [''A''])"
proof -
  have l: "pageAfterBlank ''A'' =
     response [] [entryOf ''P'' ''page'', blankEntry ''E'' ''block'', entryOf ''Q'' ''page'']"
    by (simp add: pageAfterBlank_def)
  have m: "List.member EXCLUDED_CONTENT_TYPES (contentType (entryOf ''Q'' ''page''))" by code_simp
  from fetchReferencesIteratively_returns[OF pageAfterBlank_finite] obtain r
    where ret: "fetchReferencesIteratively pageAfterBlank ''A'' = Some (Fulfilled r)" by blast
  with pageAfterBlank_run have fl: "fetchLog r = [''A'']"
    and en: "map entry_id (entries r) = [''P'']"
    and er: "map err_id (errors r) = [''A'']" by simp_all
  have no: "\<not> List.member (map entry_id (entries r)) ''Q''" unfolding en by code_simp
  show ?thesis using l m ret fl en no er by (intro conjI exI[where x = r]) assumption+
qed

subsection \<open>Claim C7: the progress counters\<close>

text \<open>
  C7 says that \<open>processed\<close> equals \<open>total\<close> only at completion. The report made right
  after a fetch comes before the entries of the response are queued: on the cycle \<open>A\<close>,
  \<open>B\<close> the first report is \<open>(1, 1)\<close> and two more reports follow.
\<close>

theorem equality_only_at_completion_counterexample:
  "(\<exists>r. fetchReferencesIteratively cycleAB ''A'' = Some (Fulfilled r) \<and>
        progressLog r = [(1, 1), (1, 2), (2, 2)]) \<and>
   \<not> (\<forall>r. fetchReferencesIteratively cycleAB ''A'' = Some (Fulfilled r) \<longrightarrow>
          (\<forall>i < length (progressLog r) - 1. fst (progressLog r ! i) < snd (progressLog r ! i)))"
proof -
  from fetchReferencesIteratively_returns[OF cycleAB_finite] obtain r
    where ret: "fetchReferencesIteratively cycleAB ''A'' = Some (Fulfilled r)" by blast
  with cycleAB_run have log: "progressLog r = [(1, 1), (1, 2), (2, 2)]" by simp
  have "\<not> (\<forall>i < length (progressLog r) - 1. fst (progressLog r ! i) < snd (progressLog r ! i))"
  proof
    assume h: "\<forall>i < length (progressLog r) - 1. fst (progressLog r ! i) < snd (progressLog r ! i)"
    have "(0::nat) < length (progressLog r) - 1" unfolding log by simp
    with h have "fst (progressLog r ! 0) < snd (progressLog r ! 0)" by blast
    then show False unfolding log by simp
  qed
  with ret log show ?thesis by blast
qed

text \<open>
  C7, amended. On every graph whose reachable part is finite, \<open>processed\<close> never
  decreases from one report to the next and the last report carries the final counters.
  In a traversal in which no asset and no entry listed for a fetched id makes the loop
  body throw, \<open>processed\<close> never exceeds \<open>total\<close> in any report and the two are equal
  at completion; they can also be equal in an earlier report.
\<close>

theorem progress_reports:
  assumes "finite (reachable fetch root)"
  shows "\<exists>r. fetchReferencesIteratively fetch root = Some (Fulfilled r) \<and>
           sorted (map fst (progressLog r)) \<and>
           progressLog r \<noteq> [] \<and> last (progressLog r) = (processed r, total_count r) \<and>
           ((\<forall>u \<in> set (fetchLog r). renders fetch u) \<longrightarrow>
              (\<forall>x \<in> set (progressLog r). fst x \<le> snd x) \<and> processed r = total_count r)"
proof -
  from fetchReferencesIteratively_returns[OF assms] obtain r
    where ret: "fetchReferencesIteratively fetch root = Some (Fulfilled r)"
      and run: "processQueue fetch (initial root) = Some r" by blast
  from progress_ok_final[OF run] have ok: "queue_ok r" and so: "sorted_reports r"
    and sy: "synced r" and e: "entriesToProcess r = []"
    and cf: "(\<forall>u \<in> set (fetchLog r). renders fetch u) \<longrightarrow>
        processed r = length (fetchLog r) \<and> (\<forall>x \<in> set (progressLog r). fst x \<le> snd x)"
    by (simp_all add: progress_ok_def)
  have t: "total_count r = length (fetchLog r)" using ok e by (simp add: queue_ok_def)
  have a: "sorted (map fst (progressLog r))" using so by (simp add: sorted_reports_def)
  have b: "progressLog r \<noteq> []" and c: "last (progressLog r) = (processed r, total_count r)"
    using sy by (simp_all add: synced_def)
  have d: "(\<forall>u \<in> set (fetchLog r). renders fetch u) \<longrightarrow>
              (\<forall>x \<in> set (progressLog r). fst x \<le> snd x) \<and> processed r = total_count r"
    using cf t by simp
  show ?thesis using ret a b c d by (intro exI[where x = r] conjI) assumption+
qed

text \<open>The amended claim on the cycle \<open>A\<close>, \<open>B\<close>: the three reports and the final counters.\<close>

theorem progress_reports_witness:
  "finite (reachable cycleAB ''A'') \<and>
   (\<exists>r. fetchReferencesIteratively cycleAB ''A'' = Some (Fulfilled r) \<and>
        list_all (renders cycleAB) (fetchLog r) \<and>
        progressLog r = [(1, 1), (1, 2), (2, 2)] \<and>
        sorted (map fst (progressLog r)) \<and>
        list_all (\<lambda>x. fst x \<le> snd x) (progressLog r) \<and>
        processed r = total_count r)"
proof -
  from progress_reports[OF cycleAB_finite] obtain r
    where ret: "fetchReferencesIteratively cycleAB ''A'' = Some (Fulfilled r)"
      and so: "sorted (map fst (progressLog r))"
      and cf: "(\<forall>u \<in> set (fetchLog r). renders cycleAB u) \<longrightarrow>
              (\<forall>x \<in> set (progressLog r). fst x \<le> snd x) \<and> processed r = total_count r"
    by blast
  from cycleAB_run ret have fl: "fetchLog r = [''A'', ''B'']"
    and log: "progressLog r = [(1, 1), (1, 2), (2, 2)]" by simp_all
  have ra: "renders cycleAB ''A''" by code_simp
  have rb: "renders cycleAB ''B''" by code_simp
  have all: "\<forall>u \<in> set (fetchLog r). renders cycleAB u" unfolding fl using ra rb by simp
  with cf have bd: "\<forall>x \<in> set (progressLog r). fst x \<le> snd x" and eq: "processed r = total_count r"
    by blast+
  have l1: "list_all (renders cycleAB) (fetchLog r)" using all by (simp add: list_all_iff)
  have l2: "list_all (\<lambda>x. fst x \<le> snd x) (progressLog r)" using bd by (simp add: list_all_iff)
  show ?thesis using cycleAB_finite ret l1 log so l2 eq
    by (intro conjI exI[where x = r]) assumption+
qed

subsection \<open>Claim C8: fetch failures\<close>

text \<open>
  C8 says that a failure to fetch the root is thrown to the caller. The fetch of the root
  stands in the same \<open>try\<close> block as every other fetch: with a root that cannot be
  fetched the function still returns, and nothing escapes it.
\<close>

theorem root_failure_propagates_counterexample:
  "(\<exists>r. fetchReferencesIteratively unreachableRoot ''A'' = Some (Fulfilled r) \<and>
        fetchLog r = [''A''] \<and>
        errors r = [\<lparr>err_id = ''A'', err_type = ''Entry'',
                     err_message = ''Error fetching references: Forbidden''\<rparr>]) \<and>
   \<not> ((\<exists>e. fetchReferencesIteratively unreachableRoot ''A'' = Some (Escaped e)) \<longleftrightarrow>
       (\<exists>err. unreachableRoot ''A'' = Rejected err))"
proof -
  have "finite (reachable unreachableRoot ''A'')"
    by (rule reachable_finite_list[where S = "[''A'']"]; code_simp)
  from fetchReferencesIteratively_returns[OF this] obtain r
    where ret: "fetchReferencesIteratively unreachableRoot ''A'' = Some (Fulfilled r)" by blast
  with unreachableRoot_run have fl: "fetchLog r = [''A'']"
    and er: "errors r = [\<lparr>err_id = ''A'', err_type = ''Entry'',
                     err_message = ''Error fetching references: Forbidden''\<rparr>]" by simp_all
  have pos: "\<exists>r. fetchReferencesIteratively unreachableRoot ''A'' = Some (Fulfilled r) \<and>
        fetchLog r = [''A''] \<and>
        errors r = [\<lparr>err_id = ''A'', err_type = ''Entry'',
                     err_message = ''Error fetching references: Forbidden''\<rparr>]"
    using ret fl er by (intro exI[where x = r] conjI) assumption+
  have neg: "\<not> ((\<exists>e. fetchReferencesIteratively unreachableRoot ''A'' = Some (Escaped e)) \<longleftrightarrow>
       (\<exists>err. unreachableRoot ''A'' = Rejected err))"
    by (simp add: fetchReferencesIteratively_never_escapes unreachableRoot_def)
  show ?thesis using pos neg by (rule conjI)
qed

text \<open>
  C8, amended. \<open>fetchReferencesIteratively\<close> never throws. On every graph whose
  reachable part is finite it returns, the error list holds a synthetic error keyed to the
  id of every fetched entry whose fetch was rejected, the root included, and the traversal
  goes on after a failure: every id that was queued is fetched.
\<close>

theorem fetch_failures_are_recorded:
  "(\<forall>e. fetchReferencesIteratively fetch root \<noteq> Some (Escaped e)) \<and>
   (finite (reachable fetch root) \<longrightarrow>
      (\<exists>r. fetchReferencesIteratively fetch root = Some (Fulfilled r) \<and>
           (\<forall>u err. u \<in> set (fetchLog r) \<and> fetch u = Rejected err \<longrightarrow>
              \<lparr>err_id = u, err_type = ''Entry'',
               err_message = ''Error fetching references: '' @ err\<rparr> \<in> set (errors r)) \<and>
           set (fetchLog r) = entriesQueued r))"
proof (intro conjI allI impI)
  fix e show "fetchReferencesIteratively fetch root \<noteq> Some (Escaped e)"
    by (rule fetchReferencesIteratively_never_escapes)
next
  assume fin: "finite (reachable fetch root)"
  from fetchReferencesIteratively_returns[OF fin] obtain r
    where ret: "fetchReferencesIteratively fetch root = Some (Fulfilled r)"
      and run: "processQueue fetch (initial root) = Some r" by blast
  from recorded_final[OF run] have ok: "queue_ok r" and f: "failures_recorded fetch r"
    and e: "entriesToProcess r = []"
    by (simp_all add: recorded_def)
  have q: "set (fetchLog r) = entriesQueued r" using ok e by (simp add: queue_ok_def)
  have "\<forall>u err. u \<in> set (fetchLog r) \<and> fetch u = Rejected err \<longrightarrow>
              \<lparr>err_id = u, err_type = ''Entry'',
               err_message = ''Error fetching references: '' @ err\<rparr> \<in> set (errors r)"
    using f unfolding failures_recorded_def synthetic_def .
  with ret q show "\<exists>r. fetchReferencesIteratively fetch root = Some (Fulfilled r) \<and>
           (\<forall>u err. u \<in> set (fetchLog r) \<and> fetch u = Rejected err \<longrightarrow>
              \<lparr>err_id = u, err_type = ''Entry'',
               err_message = ''Error fetching references: '' @ err\<rparr> \<in> set (errors r)) \<and>
           set (fetchLog r) = entriesQueued r" by blast
qed

text \<open>
  The amended claim at a root with two entries of which the first cannot be fetched: all
  three ids are fetched and the one error is keyed to the failing id.
\<close>

theorem fetch_failures_are_recorded_witness:
  "finite (reachable middleFails ''A'') \<and>
   (\<exists>r. fetchReferencesIteratively middleFails ''A'' = Some (Fulfilled r) \<and>
        fetchLog r = [''A'', ''B'', ''C''] \<and>
        \<lparr>err_id = ''B'', err_type = ''Entry'',
         err_message = ''Error fetching references: Timeout''\<rparr> \<in> set (errors r) \<and>
        map err_id (errors r) = [''B''])"
proof -
  from fetch_failures_are_recorded[of middleFails "''A''"] middleFails_finite obtain r
    where ret: "fetchReferencesIteratively middleFails ''A'' = Some (Fulfilled r)"
      and rec: "\<forall>u err. u \<in> set (fetchLog r) \<and> middleFails u = Rejected err \<longrightarrow>
              \<lparr>err_id = u, err_type = ''Entry'',
               err_message = ''Error fetching references: '' @ err\<rparr> \<in> set (errors r)"
    by blast
  from middleFails_run ret have fl: "fetchLog r = [''A'', ''B'', ''C'']"
    and er: "map err_id (errors r) = [''B'']" by simp_all
  have "''B'' \<in> set (fetchLog r) \<and> middleFails ''B'' = Rejected ''Timeout''"
    unfolding fl by (simp add: middleFails_def)
  with rec have "\<lparr>err_id = ''B'', err_type = ''Entry'',
               err_message = ''Error fetching references: '' @ ''Timeout''\<rparr> \<in> set (errors r)"
    by blast
  then have m: "\<lparr>err_id = ''B'', err_type = ''Entry'',
         err_message = ''Error fetching references: Timeout''\<rparr> \<in> set (errors r)" by simp
  show ?thesis using middleFails_finite ret fl m er
    by (intro conjI exI[where x = r]) assumption+
qed

section \<open>The claims about the status classifier\<close>

subsection \<open>Claim C6: when the root counts as published\<close>

text \<open>
  C6. \<open>buildReferenceInformation\<close> reports the root as published exactly when the root
  itself is published and not updated, and no asset and no entry of the universe has a
  \<open>publishedAt\<close> that is later than the root's \<open>publishedAt\<close> (both present, that is
  non-empty strings, compared as strings).
\<close>

theorem published_iff_current:
  "info_published (buildReferenceInformation chk entrySys allReferences) \<longleftrightarrow>
     (isPublished chk entrySys \<and> \<not> isUpdated chk entrySys) \<and>
     \<not> (\<exists>x \<in> asset_sys ` set (assets allReferences) \<union> entry_sys ` set (entries allReferences).
          \<exists>d t. sys_publishedAt entrySys = Some d \<and> sys_publishedAt x = Some t \<and>
                d \<noteq> [] \<and> t \<noteq> [] \<and> d < t)"
proof -
  have pa: "\<And>x. publishedAfter (sys_publishedAt entrySys) (sys_publishedAt x) \<longleftrightarrow>
      (\<exists>d t. sys_publishedAt entrySys = Some d \<and> sys_publishedAt x = Some t \<and>
                d \<noteq> [] \<and> t \<noteq> [] \<and> d < t)"
    by (auto simp: publishedAfter_def split: option.splits)
  have "isOutOfDate entrySys allReferences \<longleftrightarrow>
     (\<exists>x \<in> asset_sys ` set (assets allReferences) \<union> entry_sys ` set (entries allReferences).
        publishedAfter (sys_publishedAt entrySys) (sys_publishedAt x))"
    by (auto simp: isOutOfDate_def Let_def filter_empty_conv)
  then show ?thesis
    unfolding pa by (simp add: buildReferenceInformation_def Let_def)
qed

text \<open>
  The theorem at a root published at \<open>100\<close> with one asset published at \<open>150\<close>: the root's
  own state is published, and the report says it is not.
\<close>

theorem published_iff_current_witness:
  "isPublished versionChecks root100 \<and> \<not> isUpdated versionChecks root100 \<and>
   \<not> info_published (buildReferenceInformation versionChecks root100 (universeOf [asset150] []))"
proof -
  have lt: "''100'' < ''150''" by code_simp
  have p: "isPublished versionChecks root100" "\<not> isUpdated versionChecks root100"
    by (simp_all add: versionChecks_def root100_def snapshotSys_def)
  have m: "asset_sys asset150 \<in> asset_sys ` set (assets (universeOf [asset150] [])) \<union>
            entry_sys ` set (entries (universeOf [asset150] []))"
    by (simp add: universeOf_def)
  have "sys_publishedAt root100 = Some ''100'' \<and> sys_publishedAt (asset_sys asset150) = Some ''150'' \<and>
        ''100'' \<noteq> [] \<and> ''150'' \<noteq> [] \<and> ''100'' < ''150''"
    using lt by (simp add: root100_def asset150_def snapshotSys_def)
  with m have "\<exists>x \<in> asset_sys ` set (assets (universeOf [asset150] [])) \<union>
            entry_sys ` set (entries (universeOf [asset150] [])).
          \<exists>d t. sys_publishedAt root100 = Some d \<and> sys_publishedAt x = Some t \<and>
                d \<noteq> [] \<and> t \<noteq> [] \<and> d < t"
    by blast
  with published_iff_current[of versionChecks root100 "universeOf [asset150] []"]
  have "\<not> info_published (buildReferenceInformation versionChecks root100 (universeOf [asset150] []))"
    by blast
  with p show ?thesis by blast
qed

subsection \<open>Claim C10: a root that was never published\<close>

text \<open>
  C10. When the root has no \<open>publishedAt\<close>, the universe is never out of date, whatever
  the \<open>publishedAt\<close> of its assets and entries, and the report's \<open>published\<close> is the
  root's own state alone.
\<close>

theorem never_published_root:
  assumes "sys_publishedAt entrySys = None"
  shows "\<not> isOutOfDate entrySys allReferences \<and>
         (info_published (buildReferenceInformation chk entrySys allReferences) \<longleftrightarrow>
            isPublished chk entrySys \<and> \<not> isUpdated chk entrySys)"
proof -
  have "\<not> isOutOfDate entrySys allReferences"
    using assms by (simp add: isOutOfDate_def publishedAfter_def)
  then show ?thesis by (simp add: buildReferenceInformation_def Let_def)
qed

text \<open>
  The theorem at a draft root with an asset that has been published: not out of date, and
  not published, since the root itself is a draft.
\<close>

theorem never_published_root_witness:
  "sys_publishedAt rootDraft = None \<and>
   \<not> isOutOfDate rootDraft (universeOf [asset150] []) \<and>
   \<not> info_published (buildReferenceInformation versionChecks rootDraft (universeOf [asset150] []))"
proof -
  have n: "sys_publishedAt rootDraft = None"
    by (simp add: rootDraft_def snapshotSys_def)
  have "\<not> isPublished versionChecks rootDraft"
    by (simp add: versionChecks_def rootDraft_def snapshotSys_def)
  with never_published_root[OF n, of "universeOf [asset150] []" versionChecks] n
  show ?thesis by blast
qed

section \<open>The claims about the publish orchestrator\<close>

subsection \<open>Claim C2: a failed dependency blocks the root\<close>

text \<open>
  C2. In every run of \<open>doPublish\<close>: when the call for a dependency is rejected, or when
  the list of failed items is not empty, the function returns \<open>false\<close> and no call is
  made for the root. It returns \<open>true\<close> exactly when every dependency was counted as
  published and the last call is the root's and was resolved.
\<close>

theorem failed_dependency_blocks_root:
  "((\<exists>e \<in> set (pub_calls (snd (doPublish client information t))).
        fst e = Dependency \<and> \<not> resolved (snd (snd e))) \<longrightarrow>
      \<not> fst (doPublish client information t) \<and>
      (\<forall>e \<in> set (pub_calls (snd (doPublish client information t))). fst e \<noteq> Root)) \<and>
   (pub_errored (snd (doPublish client information t)) \<noteq> [] \<longrightarrow>
      \<not> fst (doPublish client information t) \<and>
      (\<forall>e \<in> set (pub_calls (snd (doPublish client information t))). fst e \<noteq> Root)) \<and>
   (fst (doPublish client information t) \<longleftrightarrow>
      pub_published (snd (doPublish client information t)) = total_of information \<and>
      (\<exists>c i. pub_calls (snd (doPublish client information t)) \<noteq> [] \<and>
             last (pub_calls (snd (doPublish client information t))) = (Root, c, Resolve i)))"
proof -
  define d where "d = publishDependencies client information t"
  define s where "s = publishRoot client t d"
  have s: "snd (doPublish client information t) = s" by (simp add: doPublish_snd s_def d_def)
  have ok: "fst (doPublish client information t) \<longleftrightarrow> pub_errors s = 0"
    by (simp add: doPublish_fst s_def d_def)
  obtain R where R: "pub_calls s = pub_calls d @ R" "length R \<le> 1"
    "\<forall>e \<in> set R. fst e = Root" "pub_errors d > 0 \<longrightarrow> R = []"
    using publishRoot_calls[of client t d] unfolding s_def by auto
  have dep: "\<forall>e \<in> set (pub_calls d). fst e = Dependency"
    unfolding d_def by (rule publishDependencies_origin)
  have stop: "pub_errors d > 0 \<Longrightarrow> \<not> fst (doPublish client information t) \<and>
         (\<forall>e \<in> set (pub_calls (snd (doPublish client information t))). fst e \<noteq> Root)"
    using failed_dependencies_stop[of client information t] unfolding d_def by simp
  have A: "(\<exists>e \<in> set (pub_calls s). fst e = Dependency \<and> \<not> resolved (snd (snd e))) \<longrightarrow>
      \<not> fst (doPublish client information t) \<and>
      (\<forall>e \<in> set (pub_calls (snd (doPublish client information t))). fst e \<noteq> Root)"
  proof
    assume "\<exists>e \<in> set (pub_calls s). fst e = Dependency \<and> \<not> resolved (snd (snd e))"
    then obtain e where e: "e \<in> set (pub_calls s)" "fst e = Dependency" "\<not> resolved (snd (snd e))"
      by blast
    with R have "e \<in> set (pub_calls d)" by auto
    with e publishDependencies_rejects[of client information t] have "pub_errors d > 0"
      unfolding d_def by blast
    then show "\<not> fst (doPublish client information t) \<and>
      (\<forall>e \<in> set (pub_calls (snd (doPublish client information t))). fst e \<noteq> Root)"
      by (rule stop)
  qed
  have B: "pub_errored s \<noteq> [] \<longrightarrow>
      \<not> fst (doPublish client information t) \<and>
      (\<forall>e \<in> set (pub_calls (snd (doPublish client information t))). fst e \<noteq> Root)"
  proof
    assume "pub_errored s \<noteq> []"
    then have "pub_errored d \<noteq> []" by (simp add: s_def)
    then have "pub_errors d > 0"
      using publishDependencies_errored[of client information t] unfolding d_def by simp
    then show "\<not> fst (doPublish client information t) \<and>
      (\<forall>e \<in> set (pub_calls (snd (doPublish client information t))). fst e \<noteq> Root)"
      by (rule stop)
  qed
  have cnt: "pub_published d + pub_errors d = total_of information"
    unfolding d_def by (rule publishDependencies_counts)
  have pubs: "pub_published s = pub_published d" by (simp add: s_def)
  have C: "pub_errors s = 0 \<longleftrightarrow>
      pub_published s = total_of information \<and>
      (\<exists>c i. pub_calls s \<noteq> [] \<and> last (pub_calls s) = (Root, c, Resolve i))"
  proof
    assume z: "pub_errors s = 0"
    have "pub_errors d \<le> pub_errors s" unfolding s_def by (rule publishRoot_errors_mono)
    with z have d0: "pub_errors d = 0" by simp
    with cnt pubs have p: "pub_published s = total_of information" by simp
    from publishRoot_done[OF d0, of client t] z
    obtain c i where "pub_calls s = pub_calls d @ [(Root, c, Resolve i)]"
      unfolding s_def by blast
    then have "pub_calls s \<noteq> [] \<and> last (pub_calls s) = (Root, c, Resolve i)" by simp
    with p show "pub_published s = total_of information \<and>
      (\<exists>c i. pub_calls s \<noteq> [] \<and> last (pub_calls s) = (Root, c, Resolve i))" by blast
  next
    assume h: "pub_published s = total_of information \<and>
      (\<exists>c i. pub_calls s \<noteq> [] \<and> last (pub_calls s) = (Root, c, Resolve i))"
    then obtain c i where l: "pub_calls s \<noteq> []" "last (pub_calls s) = (Root, c, Resolve i)"
      by blast
    from h cnt pubs have d0: "pub_errors d = 0" by simp
    have "R \<noteq> []"
    proof
      assume "R = []"
      with R l have "last (pub_calls d) = (Root, c, Resolve i)" "pub_calls d \<noteq> []" by simp_all
      then have "(Root, c, Resolve i) \<in> set (pub_calls d)" using last_in_set by metis
      with dep show False by auto
    qed
    with R(2) obtain x where x: "R = [x]" by (cases R) auto
    with R l have "x = (Root, c, Resolve i)" by simp
    with x R have "pub_calls s = pub_calls d @ [(Root, c, Resolve i)]" by simp
    with publishRoot_done[OF d0, of client t] show "pub_errors s = 0"
      unfolding s_def by blast
  qed
  show ?thesis using A B C unfolding s ok by (intro conjI) assumption+
qed

text \<open>
  The theorem at two draft entries of which the second is rejected: the result is
  \<open>false\<close> and the two entry calls are the only calls.
\<close>

theorem failed_dependency_blocks_root_witness:
  "(\<exists>e \<in> set (pub_calls (snd (doPublish (rejecting [''e2''])
        (informationOf [] [] [draftEntry ''e1'', draftEntry ''e2''] []) None))).
      fst e = Dependency \<and> \<not> resolved (snd (snd e))) \<and>
   \<not> fst (doPublish (rejecting [''e2''])
        (informationOf [] [] [draftEntry ''e1'', draftEntry ''e2''] []) None) \<and>
   list_all (\<lambda>e. fst e \<noteq> Root)
     (pub_calls (snd (doPublish (rejecting [''e2''])
        (informationOf [] [] [draftEntry ''e1'', draftEntry ''e2''] []) None))) \<and>
   map (\<lambda>e. fst (snd e))
     (pub_calls (snd (doPublish (rejecting [''e2''])
        (informationOf [] [] [draftEntry ''e1'', draftEntry ''e2''] []) None))) =
     [EntryPublish ''e1'', EntryPublish ''e2'']"
proof -
  let ?r = "doPublish (rejecting [''e2''])
        (informationOf [] [] [draftEntry ''e1'', draftEntry ''e2''] []) None"
  have log: "pub_calls (snd ?r) =
      [(Dependency, EntryPublish ''e1'', Resolve (Some ''e1'')),
       (Dependency, EntryPublish ''e2'', Reject ''Conflict'')]"
    by code_simp
  have bad: "\<exists>e \<in> set (pub_calls (snd ?r)). fst e = Dependency \<and> \<not> resolved (snd (snd e))"
    unfolding log by (simp add: resolved_def)
  with failed_dependency_blocks_root[of "rejecting [''e2'']"
      "informationOf [] [] [draftEntry ''e1'', draftEntry ''e2''] []" None]
  have "\<not> fst ?r" and "\<forall>e \<in> set (pub_calls (snd ?r)). fst e \<noteq> Root" by blast+
  then have "\<not> fst ?r" and "list_all (\<lambda>e. fst e \<noteq> Root) (pub_calls (snd ?r))"
    by (simp_all add: list_all_iff)
  moreover have "map (\<lambda>e. fst (snd e)) (pub_calls (snd ?r)) = [EntryPublish ''e1'', EntryPublish ''e2'']"
    unfolding log by simp
  ultimately show ?thesis using bad by (intro conjI) assumption+
qed

subsection \<open>Claim C3: assets, then entries, then the root\<close>

text \<open>
  C3. In every run of \<open>doPublish\<close> the calls on the client are, in this order: the call
  of each draft asset, then of each updated asset, then of each draft entry, then of each
  updated entry, and last the call for the root, which is made only when no dependency has
  failed. (An item has one call, immediate or scheduled; it has none when the scheduled
  time is not a date.)
\<close>

theorem calls_in_order:
  "issued (snd (doPublish client information t)) =
     concat (map (itemCalls client t Dependency Asset)
               (map asset_sys (draftAssets information @ updatedAssets information))) @
     concat (map (itemCalls client t Dependency Entry)
               (map entry_sys (draftEntries information @ updatedEntries information))) @
     (if pub_errored (snd (doPublish client information t)) = []
      then rootCalls client t else [])"
proof -
  have "pub_errored (snd (doPublish client information t)) = [] \<longleftrightarrow>
        pub_errors (publishDependencies client information t) = 0"
    using publishDependencies_errored[of client information t]
    by (simp add: doPublish_snd)
  then show ?thesis
    by (simp add: doPublish_snd publishRoot_issued publishDependencies_issued)
qed

text \<open>
  The theorem at two draft assets and two draft entries with no failure: both asset calls,
  then both entry calls, then the root's.
\<close>

theorem calls_in_order_witness:
  "issued (snd (doPublish (rejecting [])
      (informationOf [draftAsset ''a1'', draftAsset ''a2''] []
                     [draftEntry ''e1'', draftEntry ''e2''] []) None)) =
   [(Dependency, AssetPublish ''a1''), (Dependency, AssetPublish ''a2''),
    (Dependency, EntryPublish ''e1''), (Dependency, EntryPublish ''e2''),
    (Root, RootPublish)]"
proof -
  have e: "pub_errored (snd (doPublish (rejecting [])
      (informationOf [draftAsset ''a1'', draftAsset ''a2''] []
                     [draftEntry ''e1'', draftEntry ''e2''] []) None)) = []"
    by code_simp
  show ?thesis
    using calls_in_order[of "rejecting []"
      "informationOf [draftAsset ''a1'', draftAsset ''a2''] []
                     [draftEntry ''e1'', draftEntry ''e2''] []" None]
    unfolding e
    by (simp add: itemCalls_def rootCalls_def informationOf_def draftAsset_def draftEntry_def
          draftSys_def)
qed

subsection \<open>Claim C9: the scheduling path\<close>

text \<open>
  C9. In every run of \<open>doPublish\<close> with a scheduled time \<open>ts\<close> (a non-empty
  string): no call on the client is an immediate publish; \<open>scheduledActionIds\<close> holds,
  in call order, the ids that the calls returned; and the items counted as published are
  the dependencies whose call resolved. When \<open>ts\<close> is a date, so that \<open>toISOString\<close>
  yields a datetime \<open>dt\<close>, the calls are exactly one \<open>scheduledActions.create\<close> at
  \<open>dt\<close> for each dependency, assets first, and one for the root when no dependency has
  failed. When \<open>scheduledActions.create\<close> keeps its contract and resolves to an action
  with an id, the replies of the calls that resolved are, in order, the actions whose ids
  are in \<open>scheduledActionIds\<close>: one recorded id for every item that was scheduled.
\<close>

theorem scheduled_run_takes_schedule_path:
  assumes "ts \<noteq> []"
  shows "(\<forall>e \<in> set (pub_calls (snd (doPublish client information (Some ts)))).
            \<not> immediate (fst (snd e))) \<and>
         pub_scheduledActionIds (snd (doPublish client information (Some ts))) =
           recordedIds (pub_calls (snd (doPublish client information (Some ts)))) \<and>
         pub_published (snd (doPublish client information (Some ts))) =
           length (filter (\<lambda>e. fst e = Dependency \<and> resolved (snd (snd e)))
                     (pub_calls (snd (doPublish client information (Some ts))))) \<and>
         (\<forall>dt. toISOString client ts = Some dt \<longrightarrow>
            issued (snd (doPublish client information (Some ts))) =
              map (scheduleCall Dependency Asset dt)
                (map asset_sys (draftAssets information @ updatedAssets information)) @
              map (scheduleCall Dependency Entry dt)
                (map entry_sys (draftEntries information @ updatedEntries information)) @
              (if pub_errored (snd (doPublish client information (Some ts))) = []
               then [scheduleCall Root Entry dt (getSys client)] else [])) \<and>
         (createsCarryIds client \<longrightarrow>
            map (\<lambda>e. snd (snd e))
              (filter (\<lambda>e. resolved (snd (snd e)))
                 (pub_calls (snd (doPublish client information (Some ts))))) =
            map (\<lambda>i. Resolve (Some i))
              (pub_scheduledActionIds (snd (doPublish client information (Some ts)))))"
proof -
  let ?t = "Some ts"
  let ?d = "publishDependencies client information ?t"
  let ?p = "snd (doPublish client information ?t)"
  have t: "truthy ?t" using assms by (simp add: truthy_def)
  have p: "?p = publishRoot client ?t ?d" by (rule doPublish_snd)
  have a: "\<forall>e \<in> set (pub_calls ?p). \<not> immediate (fst (snd e))"
    unfolding p by (rule publishRoot_scheduled[OF t publishDependencies_scheduled[OF t]])
  have b: "pub_scheduledActionIds ?p = recordedIds (pub_calls ?p)"
    unfolding p by (rule publishRoot_ids[OF t publishDependencies_ids[OF t]])
  have c: "pub_published ?p =
           length (filter (\<lambda>e. fst e = Dependency \<and> resolved (snd (snd e))) (pub_calls ?p))"
    unfolding p by (rule publishRoot_succeeded[OF publishDependencies_succeeded])
  have d: "\<forall>dt. toISOString client ts = Some dt \<longrightarrow>
            issued ?p =
              map (scheduleCall Dependency Asset dt)
                (map asset_sys (draftAssets information @ updatedAssets information)) @
              map (scheduleCall Dependency Entry dt)
                (map entry_sys (draftEntries information @ updatedEntries information)) @
              (if pub_errored ?p = [] then [scheduleCall Root Entry dt (getSys client)] else [])"
  proof (intro allI impI)
    fix dt assume iso: "toISOString client ts = Some dt"
    have ic: "\<And>org ty. itemCalls client ?t org ty = (\<lambda>x. [scheduleCall org ty dt x])"
      using itemCalls_scheduled[OF assms iso] by (intro ext) simp
    have "pub_errored ?p = [] \<longleftrightarrow> pub_errors ?d = 0"
      using publishDependencies_errored[of client information ?t] by (simp add: p)
    then have raw: "issued ?p =
        concat (map (itemCalls client ?t Dependency Asset)
                  (map asset_sys (draftAssets information @ updatedAssets information))) @
        concat (map (itemCalls client ?t Dependency Entry)
                  (map entry_sys (draftEntries information @ updatedEntries information))) @
        (if pub_errored ?p = [] then rootCalls client ?t else [])"
      by (simp add: p publishRoot_issued publishDependencies_issued)
    show "issued ?p =
              map (scheduleCall Dependency Asset dt)
                (map asset_sys (draftAssets information @ updatedAssets information)) @
              map (scheduleCall Dependency Entry dt)
                (map entry_sys (draftEntries information @ updatedEntries information)) @
              (if pub_errored ?p = [] then [scheduleCall Root Entry dt (getSys client)] else [])"
      unfolding raw ic concat_singletons rootCalls_scheduled[OF assms iso] ..
  qed
  have e: "createsCarryIds client \<longrightarrow>
            map (\<lambda>e. snd (snd e)) (filter (\<lambda>e. resolved (snd (snd e))) (pub_calls ?p)) =
            map (\<lambda>i. Resolve (Some i)) (pub_scheduledActionIds ?p)"
  proof
    assume k: "createsCarryIds client"
    have carry: "\<forall>e \<in> set (pub_calls ?p). \<forall>r. snd (snd e) = Resolve r \<longrightarrow> truthy r"
      unfolding p
      by (rule publishRoot_carry[OF assms k publishDependencies_carry[OF assms k]])
    show "map (\<lambda>e. snd (snd e)) (filter (\<lambda>e. resolved (snd (snd e))) (pub_calls ?p)) =
            map (\<lambda>i. Resolve (Some i)) (pub_scheduledActionIds ?p)"
      unfolding b by (rule recordedIds_replies[OF carry])
  qed
  show ?thesis using a b c d e by (intro conjI) assumption+
qed

text \<open>
  The theorem at one draft asset and one draft entry, scheduled for \<open>2030-01-01T10:00\<close>
  on a client that resolves every call: three scheduled actions are created, for the
  asset, the entry and the root, none is an immediate publish, the three ids are recorded
  and the two dependencies are counted as published.
\<close>

theorem scheduled_run_takes_schedule_path_witness:
  "''2030-01-01T10:00'' \<noteq> [] \<and>
   toISOString (rejecting []) ''2030-01-01T10:00'' = Some ''2030-01-01T10:00:00.000Z'' \<and>
   createsCarryIds (rejecting []) \<and>
   list_all (\<lambda>e. \<not> immediate (fst (snd e)))
     (pub_calls (snd (doPublish (rejecting [])
        (informationOf [draftAsset ''a1''] [] [draftEntry ''e1''] [])
        (Some ''2030-01-01T10:00'')))) \<and>
   issued (snd (doPublish (rejecting [])
        (informationOf [draftAsset ''a1''] [] [draftEntry ''e1''] [])
        (Some ''2030-01-01T10:00''))) =
     [(Dependency, ScheduleCreate ''space'' ''master'' Asset ''a1'' ''2030-01-01T10:00:00.000Z''),
      (Dependency, ScheduleCreate ''space'' ''master'' Entry ''e1'' ''2030-01-01T10:00:00.000Z''),
      (Root, ScheduleCreate ''space'' ''master'' Entry ''root'' ''2030-01-01T10:00:00.000Z'')] \<and>
   map (\<lambda>e. snd (snd e))
     (filter (\<lambda>e. resolved (snd (snd e)))
        (pub_calls (snd (doPublish (rejecting [])
           (informationOf [draftAsset ''a1''] [] [draftEntry ''e1''] [])
           (Some ''2030-01-01T10:00''))))) =
     [Resolve (Some ''action-a1''), Resolve (Some ''action-e1''), Resolve (Some ''action-root'')] \<and>
   pub_scheduledActionIds (snd (doPublish (rejecting [])
        (informationOf [draftAsset ''a1''] [] [draftEntry ''e1''] [])
        (Some ''2030-01-01T10:00''))) =
     [''action-a1'', ''action-e1'', ''action-root''] \<and>
   pub_published (snd (doPublish (rejecting [])
        (informationOf [draftAsset ''a1''] [] [draftEntry ''e1''] [])
        (Some ''2030-01-01T10:00''))) = 2"
proof -
  let ?i = "informationOf [draftAsset ''a1''] [] [draftEntry ''e1''] []"
  let ?s = "snd (doPublish (rejecting []) ?i (Some ''2030-01-01T10:00''))"
  have h1: "''2030-01-01T10:00'' \<noteq> []" by simp
  have h2: "toISOString (rejecting []) ''2030-01-01T10:00'' = Some ''2030-01-01T10:00:00.000Z''"
    by (simp add: rejecting_def)
  have h3: "createsCarryIds (rejecting [])"
    by (simp add: createsCarryIds_def rejecting_def truthy_def)
  from scheduled_run_takes_schedule_path[OF h1, of "rejecting []" ?i]
  have a: "\<forall>e \<in> set (pub_calls ?s). \<not> immediate (fst (snd e))"
    and c: "pub_scheduledActionIds ?s = recordedIds (pub_calls ?s)"
    and e: "pub_published ?s =
           length (filter (\<lambda>e. fst e = Dependency \<and> resolved (snd (snd e))) (pub_calls ?s))"
    and b0: "\<forall>dt. toISOString (rejecting []) ''2030-01-01T10:00'' = Some dt \<longrightarrow>
           issued ?s =
           map (scheduleCall Dependency Asset dt)
             (map asset_sys (draftAssets ?i @ updatedAssets ?i)) @
           map (scheduleCall Dependency Entry dt)
             (map entry_sys (draftEntries ?i @ updatedEntries ?i)) @
           (if pub_errored ?s = []
            then [scheduleCall Root Entry dt (getSys (rejecting []))] else [])"
    and f0: "createsCarryIds (rejecting []) \<longrightarrow>
           map (\<lambda>e. snd (snd e)) (filter (\<lambda>e. resolved (snd (snd e))) (pub_calls ?s)) =
           map (\<lambda>i. Resolve (Some i)) (pub_scheduledActionIds ?s)"
    by blast+
  from b0 h2 have b: "issued ?s =
           map (scheduleCall Dependency Asset ''2030-01-01T10:00:00.000Z'')
             (map asset_sys (draftAssets ?i @ updatedAssets ?i)) @
           map (scheduleCall Dependency Entry ''2030-01-01T10:00:00.000Z'')
             (map entry_sys (draftEntries ?i @ updatedEntries ?i)) @
           (if pub_errored ?s = []
            then [scheduleCall Root Entry ''2030-01-01T10:00:00.000Z'' (getSys (rejecting []))]
            else [])"
    by blast
  from f0 h3 have f: "map (\<lambda>e. snd (snd e)) (filter (\<lambda>e. resolved (snd (snd e))) (pub_calls ?s)) =
           map (\<lambda>i. Resolve (Some i)) (pub_scheduledActionIds ?s)"
    by blast
  have log: "pub_calls ?s =
      [(Dependency, ScheduleCreate ''space'' ''master'' Asset ''a1'' ''2030-01-01T10:00:00.000Z'',
          Resolve (Some ''action-a1'')),
       (Dependency, ScheduleCreate ''space'' ''master'' Entry ''e1'' ''2030-01-01T10:00:00.000Z'',
          Resolve (Some ''action-e1'')),
       (Root, ScheduleCreate ''space'' ''master'' Entry ''root'' ''2030-01-01T10:00:00.000Z'',
          Resolve (Some ''action-root''))]"
    by code_simp
  have err: "pub_errored ?s = []" by code_simp
  have a': "list_all (\<lambda>e. \<not> immediate (fst (snd e))) (pub_calls ?s)"
    using a by (simp add: list_all_iff)
  have b': "issued ?s =
     [(Dependency, ScheduleCreate ''space'' ''master'' Asset ''a1'' ''2030-01-01T10:00:00.000Z''),
      (Dependency, ScheduleCreate ''space'' ''master'' Entry ''e1'' ''2030-01-01T10:00:00.000Z''),
      (Root, ScheduleCreate ''space'' ''master'' Entry ''root'' ''2030-01-01T10:00:00.000Z'')]"
    unfolding b err
    by (simp add: scheduleCall_def informationOf_def draftAsset_def draftEntry_def draftSys_def
          rejecting_def rootSys_def)
  have c': "pub_scheduledActionIds ?s = [''action-a1'', ''action-e1'', ''action-root'']"
    unfolding c log by (simp add: recordedIds_def)
  have f': "map (\<lambda>e. snd (snd e)) (filter (\<lambda>e. resolved (snd (snd e))) (pub_calls ?s)) =
     [Resolve (Some ''action-a1''), Resolve (Some ''action-e1''), Resolve (Some ''action-root'')]"
    unfolding f c' by simp
  have e': "pub_published ?s = 2" unfolding e log by (simp add: resolved_def)
  show ?thesis using h1 h2 h3 a' b' f' c' e' by (intro conjI) assumption+
qed

end
